theory Spec2Isabelle
  imports Complex_Main
begin

section \<open>Numbers of the trainer\<close>

text \<open>
  A \<open>float64\<close> is modelled as an exact real number or a value that is not finite.
  Rounding and overflow are not modelled. The trainer only adds, subtracts and
  multiplies such values and divides them by the \<open>float64\<close> of a length; each of these
  operations gives NaN or an infinity as soon as one operand is NaN or an infinity,
  so the values that are not finite are collapsed into the single absorbing value
  \<open>NaN\<close>. A division by \<open>float64(0)\<close> is never finite. With exact sums, addition is
  associative and commutative and has the neutral element 0, also on \<open>NaN\<close>.

  A Go \<open>int\<close> is modelled as an unbounded integer: every index the program adds to is
  bounded by a slice length plus the batch size, and the update counter grows by one
  per batch, so no 64-bit addition of a run that can be executed wraps around.
\<close>

datatype f64 = Fin real | NaN

instantiation f64 :: "{one, minus, times, comm_monoid_add}"
begin

definition zero_f64 :: f64 where
  "zero_f64 = Fin 0"

definition one_f64 :: f64 where
  "one_f64 = Fin 1"

fun plus_f64 :: "f64 \<Rightarrow> f64 \<Rightarrow> f64" where
  "plus_f64 (Fin a) (Fin b) = Fin (a + b)"
| "plus_f64 _ _ = NaN"

fun minus_f64 :: "f64 \<Rightarrow> f64 \<Rightarrow> f64" where
  "minus_f64 (Fin a) (Fin b) = Fin (a - b)"
| "minus_f64 _ _ = NaN"

fun times_f64 :: "f64 \<Rightarrow> f64 \<Rightarrow> f64" where
  "times_f64 (Fin a) (Fin b) = Fin (a * b)"
| "times_f64 _ _ = NaN"

lemma plus_f64_NaN_right: "x + NaN = NaN" for x :: f64
  by (cases x) simp_all

lemma plus_f64_assoc: "x + y + z = x + (y + z)" for x y z :: f64
  by (induction x y rule: plus_f64.induct; cases z)
     (simp_all add: plus_f64_NaN_right)

lemma plus_f64_commute: "x + y = y + x" for x y :: f64
  by (induction x y rule: plus_f64.induct) (simp_all add: plus_f64_NaN_right)

lemma plus_f64_zero: "0 + x = x" for x :: f64
  unfolding zero_f64_def by (cases x) simp_all

instance
  by standard (rule plus_f64_assoc plus_f64_commute plus_f64_zero)+

end

text \<open>\<open>x / float64(n)\<close> for a length \<open>n\<close>.\<close>

fun fdivn :: "f64 \<Rightarrow> nat \<Rightarrow> f64" where
  "fdivn (Fin a) n = (if n = 0 then NaN else Fin (a / real n))"
| "fdivn NaN n = NaN"

fun finite64 :: "f64 \<Rightarrow> bool" where
  "finite64 (Fin a) = True"
| "finite64 NaN = False"

section \<open>Data model\<close>

record DataPoint =
  Features :: "f64 list"
  Label :: f64

text \<open>
  The two mutexes of the \<open>Model\<close> struct are the booleans \<open>mu\<close> and \<open>MetricsMu\<close>
  (\<open>True\<close> when locked). \<open>StartTime\<close> is never read by the trainer and is left out.
\<close>

record Model =
  Weights :: "f64 list"
  Bias :: f64
  mu :: bool
  Updates :: int
  Metrics :: "int \<rightharpoonup> f64"
  MetricsMu :: bool

datatype panic = DivideByZero | NegativeLen | SliceBounds | IndexOutOfRange

record config =
  numWorkers :: int
  batchSize :: int
  epochs :: int
  learningRate :: f64

section \<open>Partitioning the training set\<close>

text \<open>The slice expression \<open>xs[lo:hi]\<close>, which panics when the bounds are out of order.\<close>

definition slice :: "'a list \<Rightarrow> int \<Rightarrow> int \<Rightarrow> panic + 'a list" where
  "slice xs lo hi =
     (if 0 \<le> lo \<and> lo \<le> hi \<and> hi \<le> int (length xs)
      then Inr (take (nat (hi - lo)) (drop (nat lo) xs))
      else Inl SliceBounds)"

text \<open>
  The loop of \<open>main\<close> that fills \<open>workersData\<close>: worker \<open>i\<close> gets
  \<open>trainData[i * chunkSize : i * chunkSize + chunkSize]\<close>, the last worker gets
  everything up to the end.
\<close>

function assign :: "DataPoint list \<Rightarrow> int \<Rightarrow> int \<Rightarrow> int \<Rightarrow> DataPoint list list
    \<Rightarrow> panic + DataPoint list list" where
  "assign trainData nw chunkSize i acc =
     (if i < nw then
        (let start = i * chunkSize;
             end0 = start + chunkSize;
             end1 = (if i = nw - 1 then int (length trainData) else end0)
         in case slice trainData start end1 of
              Inl e \<Rightarrow> Inl e
            | Inr p \<Rightarrow> assign trainData nw chunkSize (i + 1) (acc @ [p]))
      else Inr acc)"
  by pat_completeness auto
termination
  by (relation "measure (\<lambda>(trainData, nw, chunkSize, i, acc). nat (nw - i))") auto

declare assign.simps [simp del]

definition partition_data :: "DataPoint list \<Rightarrow> int \<Rightarrow> panic + DataPoint list list" where
  "partition_data trainData nw =
     (if nw < 0 then Inl NegativeLen
      else if nw = 0 then Inl DivideByZero
      else assign trainData nw (int (length trainData) div nw) 0 [])"

section \<open>The worker\<close>

text \<open>
  \<open>Model.predict\<close> as a function of the model it is called on: the loop over
  \<open>m.Weights\<close> reads \<open>features[i]\<close> and panics when the feature vector is shorter
  than the weight vector.
\<close>

fun predict_loop :: "f64 list \<Rightarrow> f64 list \<Rightarrow> nat \<Rightarrow> f64 \<Rightarrow> panic + f64" where
  "predict_loop [] features i s = Inr s"
| "predict_loop (weight # ws) features i s =
     (if i < length features then predict_loop ws features (i + 1) (s + weight * features ! i)
      else Inl IndexOutOfRange)"

definition predict :: "Model \<Rightarrow> f64 list \<Rightarrow> panic + f64" where
  "predict m features = predict_loop (Weights m) features 0 (Bias m)"

text \<open>
  The loop \<open>for j, feature := range dp.Features { weightGradients[j] += error * feature }\<close>,
  which panics when the feature vector is longer than the gradient vector.
\<close>

fun add_gradients :: "f64 list \<Rightarrow> f64 \<Rightarrow> f64 list \<Rightarrow> nat \<Rightarrow> panic + f64 list" where
  "add_gradients wg err [] j = Inr wg"
| "add_gradients wg err (feature # fs) j =
     (if j < length wg then add_gradients (wg[j := wg ! j + err * feature]) err fs (j + 1)
      else Inl IndexOutOfRange)"

text \<open>
  The control points of \<open>trainWorker\<close>. Between two control points the worker touches
  the shared model at most once (one read or one write of one field or one slice
  element, or one lock operation); everything else it does there is local.
\<close>

datatype pc =
    AtEpoch | AtBatch | AtPoint | AtPredict
  | AtLock | AtWeights | AtUpdates | AtUnlock
  | AtMetricsLock | AtMetricsWrite | AtMetricsUnlock
  | AtDone

text \<open>
  The \<open>Worker\<close> struct (\<open>ID\<close>, \<open>Data\<close>, \<open>BatchSize\<close>, \<open>GradientSum\<close>; its \<open>Model\<close>
  pointer is the one shared model of the global state) together with the local
  variables of its running \<open>trainWorker\<close>: \<open>l_rest\<close> is what \<open>range batch\<close> has still to
  visit, \<open>l_sum\<close> and \<open>l_k\<close> are \<open>sum\<close> and \<open>i\<close> of the running \<open>predict\<close>, \<open>l_j\<close> is the
  index of the update loop.
\<close>

record Worker =
  ID :: int
  Data :: "DataPoint list"
  BatchSize :: int
  GradientSum :: int
  pc :: pc
  l_epoch :: int
  l_batchErrors :: "f64 list"
  l_i :: int
  l_batch :: "DataPoint list"
  l_rest :: "DataPoint list"
  l_weightGradients :: "f64 list"
  l_biasGradient :: f64
  l_batchError :: f64
  l_sum :: f64
  l_k :: nat
  l_j :: nat
  l_averageError :: f64

datatype outcome = Step Model Worker | Wait | Crash panic

text \<open>The mean of the batch errors of an epoch, as the loop after the batches computes it.\<close>

definition average :: "f64 list \<Rightarrow> f64" where
  "average batchErrors = fdivn (foldl (+) 0 batchErrors) (length batchErrors)"

text \<open>One move of a worker from its control point, on the model as it is now.\<close>

fun trainWorker_step :: "int \<Rightarrow> f64 \<Rightarrow> Model \<Rightarrow> Worker \<Rightarrow> outcome" where
  "trainWorker_step ep lr m w =
    (case pc w of
       AtEpoch \<Rightarrow>
         (if l_epoch w < ep
          then Step m (w\<lparr>pc := AtBatch, l_batchErrors := [], l_i := 0\<rparr>)
          else Step m (w\<lparr>pc := AtDone\<rparr>))
     | AtBatch \<Rightarrow>
         (if l_i w < int (length (Data w)) then
            (let end0 = l_i w + BatchSize w;
                 end1 = (if end0 > int (length (Data w)) then int (length (Data w)) else end0)
             in case slice (Data w) (l_i w) end1 of
                  Inl e \<Rightarrow> Crash e
                | Inr b \<Rightarrow>
                    Step m (w\<lparr>pc := AtPoint, l_batch := b, l_rest := b,
                              l_weightGradients := replicate (length (Weights m)) 0,
                              l_biasGradient := 0, l_batchError := 0\<rparr>))
          else Step m (w\<lparr>pc := AtMetricsLock,
                          l_averageError := average (l_batchErrors w)\<rparr>))
     | AtPoint \<Rightarrow>
         (case l_rest w of
            [] \<Rightarrow>
              Step m (w\<lparr>pc := AtLock,
                        l_batchErrors := l_batchErrors w
                           @ [fdivn (l_batchError w) (length (l_batch w))]\<rparr>)
          | dp # rest \<Rightarrow> Step m (w\<lparr>pc := AtPredict, l_sum := Bias m, l_k := 0\<rparr>))
     | AtPredict \<Rightarrow>
         (case l_rest w of
            [] \<Rightarrow> Crash IndexOutOfRange
          | dp # rest \<Rightarrow>
              (if l_k w < length (Weights m) then
                 (if l_k w < length (Features dp)
                  then Step m (w\<lparr>l_sum := l_sum w + Weights m ! l_k w * Features dp ! l_k w,
                                 l_k := l_k w + 1\<rparr>)
                  else Crash IndexOutOfRange)
               else
                 (let err = l_sum w - Label dp
                  in case add_gradients (l_weightGradients w) err (Features dp) 0 of
                       Inl e \<Rightarrow> Crash e
                     | Inr wg \<Rightarrow>
                         Step m (w\<lparr>pc := AtPoint, l_rest := rest,
                                   l_batchError := l_batchError w + err * err,
                                   l_weightGradients := wg,
                                   l_biasGradient := l_biasGradient w + err\<rparr>))))
     | AtLock \<Rightarrow>
         (if mu m then Wait
          else Step (m\<lparr>mu := True\<rparr>) (w\<lparr>pc := AtWeights, l_j := 0\<rparr>))
     | AtWeights \<Rightarrow>
         (if l_j w < length (Weights m) then
            (if l_j w < length (l_weightGradients w)
             then Step (m\<lparr>Weights := (Weights m)[l_j w := Weights m ! l_j w
                            - fdivn (lr * l_weightGradients w ! l_j w) (length (l_batch w))]\<rparr>)
                       (w\<lparr>l_j := l_j w + 1\<rparr>)
             else Crash IndexOutOfRange)
          else Step (m\<lparr>Bias := Bias m - fdivn (lr * l_biasGradient w) (length (l_batch w))\<rparr>)
                    (w\<lparr>pc := AtUpdates\<rparr>))
     | AtUpdates \<Rightarrow> Step (m\<lparr>Updates := Updates m + 1\<rparr>) (w\<lparr>pc := AtUnlock\<rparr>)
     | AtUnlock \<Rightarrow>
         Step (m\<lparr>mu := False\<rparr>)
              (w\<lparr>pc := AtBatch, GradientSum := GradientSum w + 1, l_i := l_i w + BatchSize w\<rparr>)
     | AtMetricsLock \<Rightarrow>
         (if MetricsMu m then Wait
          else Step (m\<lparr>MetricsMu := True\<rparr>) (w\<lparr>pc := AtMetricsWrite\<rparr>))
     | AtMetricsWrite \<Rightarrow>
         Step (m\<lparr>Metrics := (Metrics m)(l_epoch w \<mapsto> l_averageError w)\<rparr>)
              (w\<lparr>pc := AtMetricsUnlock\<rparr>)
     | AtMetricsUnlock \<Rightarrow>
         Step (m\<lparr>MetricsMu := False\<rparr>) (w\<lparr>pc := AtEpoch, l_epoch := l_epoch w + 1\<rparr>)
     | AtDone \<Rightarrow> Wait)"

declare trainWorker_step.simps [simp del]

section \<open>The trainer\<close>

text \<open>
  The state of the running program: the shared model, the workers, and the panic
  that ended the program, if one did.
\<close>

record state =
  model :: Model
  workers :: "Worker list"
  crashed :: "panic option"

definition newWorker :: "int \<Rightarrow> DataPoint list \<Rightarrow> int \<Rightarrow> Worker" where
  "newWorker i d b =
     \<lparr>ID = i, Data = d, BatchSize = b, GradientSum = 0, pc = AtEpoch, l_epoch = 0,
      l_batchErrors = [], l_i = 0, l_batch = [], l_rest = [], l_weightGradients = [],
      l_biasGradient = 0, l_batchError = 0, l_sum = 0, l_k = 0, l_j = 0,
      l_averageError = 0\<rparr>"

definition newModel :: "nat \<Rightarrow> Model" where
  "newModel featureCount =
     \<lparr>Weights = replicate featureCount 0, Bias = 0, mu = False, Updates = 0,
      Metrics = Map.empty, MetricsMu = False\<rparr>"

text \<open>
  \<open>main\<close> from the construction of the model to the start of the workers: the state
  in which every worker goroutine is about to run, or the panic of the partitioning.
  \<open>featureCount\<close> is \<open>len(data[0].Features)\<close>.
\<close>

definition start :: "config \<Rightarrow> DataPoint list \<Rightarrow> nat \<Rightarrow> panic + state" where
  "start cfg trainData featureCount =
     (case partition_data trainData (numWorkers cfg) of
        Inl e \<Rightarrow> Inl e
      | Inr workersData \<Rightarrow>
          Inr \<lparr>model = newModel featureCount,
               workers = map (\<lambda>(i, d). newWorker (int i) d (batchSize cfg))
                             (enumerate 0 workersData),
               crashed = None\<rparr>)"

text \<open>
  One step of the program: worker \<open>n\<close> moves. There is no step for a worker that waits
  for a mutex or has returned, and none once a goroutine has panicked.
\<close>

definition step :: "config \<Rightarrow> nat \<Rightarrow> state \<Rightarrow> state option" where
  "step cfg n s =
     (if crashed s \<noteq> None \<or> n \<ge> length (workers s) then None
      else case trainWorker_step (epochs cfg) (learningRate cfg) (model s) (workers s ! n) of
             Step m w \<Rightarrow> Some (s\<lparr>model := m, workers := (workers s)[n := w]\<rparr>)
           | Wait \<Rightarrow> None
           | Crash e \<Rightarrow> Some (s\<lparr>crashed := Some e\<rparr>))"

text \<open>The states the program can be in: every interleaving of the workers' steps.\<close>

inductive reachable :: "config \<Rightarrow> DataPoint list \<Rightarrow> nat \<Rightarrow> state \<Rightarrow> bool"
  for cfg :: config and trainData :: "DataPoint list" and featureCount :: nat where
  reach_start: "start cfg trainData featureCount = Inr s \<Longrightarrow> reachable cfg trainData featureCount s"
| reach_step: "reachable cfg trainData featureCount s \<Longrightarrow> step cfg n s = Some s'
         \<Longrightarrow> reachable cfg trainData featureCount s'"

text \<open>Running a schedule: the listed workers move in turn; a worker that cannot move is skipped.\<close>

fun run :: "config \<Rightarrow> nat list \<Rightarrow> state \<Rightarrow> state" where
  "run cfg [] s = s"
| "run cfg (n # ns) s = (case step cfg n s of None \<Rightarrow> run cfg ns s | Some s' \<Rightarrow> run cfg ns s')"

text \<open>\<open>k\<close> moves of one worker on the model, with no move of another worker in between.\<close>

fun solo :: "int \<Rightarrow> f64 \<Rightarrow> nat \<Rightarrow> Model \<Rightarrow> Worker \<Rightarrow> outcome" where
  "solo ep lr 0 m w = Step m w"
| "solo ep lr (Suc k) m w =
     (case trainWorker_step ep lr m w of
        Step m' w' \<Rightarrow> solo ep lr k m' w'
      | Wait \<Rightarrow> Wait
      | Crash e \<Rightarrow> Crash e)"

text \<open>\<open>wg.Wait()\<close> returns when every worker has returned.\<close>

definition finished :: "state \<Rightarrow> bool" where
  "finished s \<longleftrightarrow> crashed s = None \<and> (\<forall>w \<in> set (workers s). pc w = AtDone)"

section \<open>Invariants of the running program\<close>

text \<open>The number of batches of a partition: \<open>ceil(partitionSize / batchSize)\<close>.\<close>

definition batches_of :: "nat \<Rightarrow> int \<Rightarrow> int" where
  "batches_of n b = \<lceil>real n / real_of_int b\<rceil>"

text \<open>A worker is inside the critical section of \<open>mu\<close>, or of \<open>MetricsMu\<close>.\<close>

definition in_update :: "Worker \<Rightarrow> bool" where
  "in_update w \<longleftrightarrow> pc w = AtWeights \<or> pc w = AtUpdates \<or> pc w = AtUnlock"

definition in_metrics :: "Worker \<Rightarrow> bool" where
  "in_metrics w \<longleftrightarrow> pc w = AtMetricsWrite \<or> pc w = AtMetricsUnlock"

definition in_batch :: "Worker \<Rightarrow> bool" where
  "in_batch w \<longleftrightarrow> pc w = AtPoint \<or> pc w = AtPredict \<or> pc w = AtLock \<or> in_update w"

definition in_epoch :: "Worker \<Rightarrow> bool" where
  "in_epoch w \<longleftrightarrow> pc w \<noteq> AtEpoch \<and> pc w \<noteq> AtDone"

text \<open>What holds of every worker of a run with a positive batch size.\<close>

definition worker_inv :: "config \<Rightarrow> nat \<Rightarrow> Worker \<Rightarrow> bool" where
  "worker_inv cfg featureCount w \<longleftrightarrow>
     BatchSize w = batchSize cfg \<and>
     0 \<le> l_epoch w \<and>
     (l_epoch w \<le> epochs cfg \<or> l_epoch w = 0) \<and>
     (in_epoch w \<longrightarrow> l_epoch w < epochs cfg) \<and>
     (pc w = AtDone \<longrightarrow> epochs cfg \<le> l_epoch w) \<and>
     (in_epoch w \<longrightarrow> 0 \<le> l_i w \<and> l_i w mod batchSize cfg = 0
        \<and> l_i w < int (length (Data w)) + batchSize cfg) \<and>
     (in_batch w \<longrightarrow> l_i w < int (length (Data w)) \<and> l_batch w \<noteq> []
        \<and> slice (Data w) (l_i w) (min (l_i w + batchSize cfg) (int (length (Data w))))
            = Inr (l_batch w)
        \<and> length (l_weightGradients w) = featureCount) \<and>
     (pc w = AtMetricsLock \<or> in_metrics w \<longrightarrow> int (length (Data w)) \<le> l_i w
        \<and> l_averageError w = average (l_batchErrors w)) \<and>
     (pc w = AtPredict \<longrightarrow> l_rest w \<noteq> []) \<and>
     (in_epoch w \<longrightarrow> int (length (l_batchErrors w))
        = l_i w div batchSize cfg + (if pc w = AtLock \<or> in_update w then 1 else 0)) \<and>
     GradientSum w = l_epoch w * batches_of (length (Data w)) (batchSize cfg)
        + (if in_epoch w then l_i w div batchSize cfg else 0)"

text \<open>
  What holds of every state of every run: the workers own the partitions, the weight
  vector keeps its length, each mutex is locked exactly when a worker is inside its
  critical section, at most one worker is, and the update counter is the number of
  batches the workers have counted in \<open>GradientSum\<close> plus the increments not yet counted.
\<close>

definition state_inv :: "config \<Rightarrow> DataPoint list \<Rightarrow> nat \<Rightarrow> state \<Rightarrow> bool" where
  "state_inv cfg trainData featureCount s \<longleftrightarrow>
     partition_data trainData (numWorkers cfg) = Inr (map Data (workers s)) \<and>
     length (Weights (model s)) = featureCount \<and>
     (mu (model s) \<longleftrightarrow> (\<exists>n < length (workers s). in_update (workers s ! n))) \<and>
     (\<forall>n < length (workers s). \<forall>n' < length (workers s).
        in_update (workers s ! n) \<and> in_update (workers s ! n') \<longrightarrow> n = n') \<and>
     (MetricsMu (model s) \<longleftrightarrow> (\<exists>n < length (workers s). in_metrics (workers s ! n))) \<and>
     (\<forall>n < length (workers s). \<forall>n' < length (workers s).
        in_metrics (workers s ! n) \<and> in_metrics (workers s ! n') \<longrightarrow> n = n') \<and>
     Updates (model s)
       = (\<Sum>w\<leftarrow>workers s. GradientSum w + (if pc w = AtUnlock then 1 else 0))"

definition workers_inv :: "config \<Rightarrow> nat \<Rightarrow> state \<Rightarrow> bool" where
  "workers_inv cfg featureCount s \<longleftrightarrow>
     (\<forall>n < length (workers s). worker_inv cfg featureCount (workers s ! n))"




section \<open>The gradient of a batch, as specified\<close>







section \<open>Properties of the partitioning\<close>

lemma assign_done: "\<not> i < nw \<Longrightarrow> assign td nw c i acc = Inr acc"
  by (subst assign.simps) simp

lemma assign_last:
  assumes "0 \<le> c" "0 \<le> i" "i = nw - 1" "i * c \<le> int (length td)"
  shows "assign td nw c i acc = Inr (acc @ [drop (nat (i * c)) td])"
proof -
  have "0 \<le> i * c" using assms by simp
  then have "slice td (i * c) (int (length td)) = Inr (drop (nat (i * c)) td)"
    using assms by (simp add: slice_def)
  then show ?thesis
    using assms by (subst assign.simps) (simp add: Let_def assign_done)
qed

lemma assign_inner:
  assumes "0 \<le> c" "0 \<le> i" "i < nw - 1" "(i + 1) * c \<le> int (length td)"
  shows "assign td nw c i acc =
         assign td nw c (i + 1) (acc @ [take (nat c) (drop (nat (i * c)) td)])"
proof -
  have "0 \<le> i * c" using assms by simp
  moreover have "i * c + c \<le> int (length td)" using assms by (simp add: algebra_simps)
  ultimately have "slice td (i * c) (i * c + c) = Inr (take (nat c) (drop (nat (i * c)) td))"
    using assms by (simp add: slice_def)
  then show ?thesis
    using assms by (subst assign.simps) (simp add: Let_def)
qed

lemma assign_closed:
  assumes "0 \<le> c" "0 \<le> i" "i < nw" "(nw - 1) * c \<le> int (length td)"
    and "k = nat (nw - 1 - i)"
  shows "\<exists>ps. assign td nw c i acc = Inr (acc @ ps)
            \<and> map length ps = replicate k (nat c) @ [length td - nat ((nw - 1) * c)]
            \<and> concat ps = drop (nat (i * c)) td"
  using assms
proof (induction k arbitrary: i acc)
  case 0
  then have i: "i = nw - 1" by simp
  with 0 have "assign td nw c i acc = Inr (acc @ [drop (nat (i * c)) td])"
    by (intro assign_last) auto
  then show ?case using i by simp
next
  case (Suc k)
  then have i: "i < nw - 1" by simp
  have le: "(i + 1) * c \<le> (nw - 1) * c"
    using i Suc.prems(1) by (intro mult_right_mono) auto
  then have le': "(i + 1) * c \<le> int (length td)" using Suc.prems(4) by linarith
  let ?p = "take (nat c) (drop (nat (i * c)) td)"
  have step: "assign td nw c i acc = assign td nw c (i + 1) (acc @ [?p])"
    using Suc.prems i le' by (intro assign_inner) auto
  have k: "k = nat (nw - 1 - (i + 1))" using Suc.prems(5) by simp
  have "\<exists>ps. assign td nw c (i + 1) (acc @ [?p]) = Inr ((acc @ [?p]) @ ps)
      \<and> map length ps = replicate k (nat c) @ [length td - nat ((nw - 1) * c)]
      \<and> concat ps = drop (nat ((i + 1) * c)) td"
    using Suc.prems(1,2,4) i k by (intro Suc.IH) auto
  then obtain ps where ps: "assign td nw c (i + 1) (acc @ [?p]) = Inr ((acc @ [?p]) @ ps)"
      "map length ps = replicate k (nat c) @ [length td - nat ((nw - 1) * c)]"
      "concat ps = drop (nat ((i + 1) * c)) td"
    by blast
  have nn: "0 \<le> i * c" using Suc.prems by simp
  have len: "length ?p = nat c"
    using le' nn Suc.prems(1) by (simp add: algebra_simps)
  have "nat ((i + 1) * c) = nat c + nat (i * c)"
    using nn Suc.prems(1) by (simp add: algebra_simps nat_add_distrib)
  then have "?p @ drop (nat ((i + 1) * c)) td = drop (nat (i * c)) td"
    by (simp flip: drop_drop)
  then show ?case
    using step ps len by (intro exI [of _ "?p # ps"]) simp
qed

lemma partition_closed:
  assumes "1 \<le> nw"
  shows "\<exists>ps. partition_data td nw = Inr ps
            \<and> map length ps = replicate (nat (nw - 1)) (length td div nat nw)
                 @ [length td div nat nw + length td mod nat nw]
            \<and> concat ps = td"
proof -
  let ?N = "int (length td)"
  let ?c = "?N div nw"
  have c0: "0 \<le> ?c" using assms by (simp add: pos_imp_zdiv_nonneg_iff)
  have nwc: "nw * ?c = ?N - ?N mod nw" by (simp add: minus_mod_eq_mult_div)
  have m0: "0 \<le> ?N mod nw" using assms by simp
  have "(nw - 1) * ?c = ?N - ?N mod nw - ?c"
    using nwc by (simp add: algebra_simps)
  then have le: "(nw - 1) * ?c \<le> ?N"
    using m0 c0 by linarith
  have cn: "nat ?c = length td div nat nw"
    using assms by (simp add: nat_div_distrib)
  have "int (length td div nat nw + length td mod nat nw) = ?N - (nw - 1) * ?c"
    using assms nwc by (simp add: zdiv_int zmod_int algebra_simps)
  moreover have "0 \<le> (nw - 1) * ?c" using assms c0 by simp
  moreover note le
  ultimately have lastlen:
    "length td - nat ((nw - 1) * ?c) = length td div nat nw + length td mod nat nw"
  proof -
    define X where "X = (nw - 1) * ?c"
    define Y where "Y = length td div nat nw + length td mod nat nw"
    assume "int Y = ?N - X" "0 \<le> X" "X \<le> ?N"
    then show "length td - nat X = Y" by linarith
  qed
  obtain ps where "assign td nw ?c 0 [] = Inr ([] @ ps)"
     "map length ps = replicate (nat (nw - 1 - 0)) (nat ?c) @ [length td - nat ((nw - 1) * ?c)]"
     "concat ps = drop (nat (0 * ?c)) td"
    using assign_closed [OF c0 _ _ le refl, of 0 "[]"] assms by auto
  then show ?thesis
    using assms cn lastlen by (simp add: partition_data_def)
qed

lemma concat_nth_slice:
  "k < length ps \<Longrightarrow>
   ps ! k = take (length (ps ! k)) (drop (length (concat (take k ps))) (concat ps))"
proof (induction ps arbitrary: k)
  case Nil
  then show ?case by simp
next
  case (Cons p ps)
  show ?case
  proof (cases k)
    case 0
    then show ?thesis by simp
  next
    case (Suc j)
    then show ?thesis using Cons by simp
  qed
qed

text \<open>
  Claim C2. For a worker count of at least one (so for every count from 1 up to the size
  of the training set) the partitioning returns one slice per worker; the slices
  concatenated in order are the training set, and slice \<open>k\<close> is the stretch of the
  training set that starts where the slices before it end: the slices are contiguous,
  do not overlap, drop nothing and duplicate nothing.
\<close>

theorem partition_complete:
  assumes "1 \<le> nw"
  shows "\<exists>ps. partition_data trainData nw = Inr ps \<and> length ps = nat nw
           \<and> concat ps = trainData
           \<and> (\<forall>k < length ps. ps ! k = take (length (ps ! k))
                  (drop (length (concat (take k ps))) trainData))"
proof -
  obtain ps where ps: "partition_data trainData nw = Inr ps"
      "map length ps = replicate (nat (nw - 1)) (length trainData div nat nw)
                 @ [length trainData div nat nw + length trainData mod nat nw]"
      "concat ps = trainData"
    using partition_closed [OF assms] by blast
  have "length (map length ps) = nat nw"
    unfolding ps(2) using assms by simp
  then have "length ps = nat nw" by simp
  moreover have "\<forall>k < length ps. ps ! k = take (length (ps ! k))
                  (drop (length (concat (take k ps))) trainData)"
    using concat_nth_slice [of _ ps] ps(3) by simp
  ultimately show ?thesis using ps by blast
qed

theorem partition_complete_witness:
  "(1::int) \<le> 2 \<and>
   partition_data [\<lparr>Features = [Fin 1], Label = Fin 1\<rparr>, \<lparr>Features = [Fin 2], Label = Fin 2\<rparr>,
                   \<lparr>Features = [Fin 3], Label = Fin 3\<rparr>] 2
     = Inr [[\<lparr>Features = [Fin 1], Label = Fin 1\<rparr>],
            [\<lparr>Features = [Fin 2], Label = Fin 2\<rparr>, \<lparr>Features = [Fin 3], Label = Fin 3\<rparr>]]"
proof -
  let ?td = "[\<lparr>Features = [Fin 1], Label = Fin 1\<rparr>, \<lparr>Features = [Fin 2], Label = Fin 2\<rparr>,
              \<lparr>Features = [Fin 3], Label = Fin 3\<rparr>]"
  have "(1::int) \<le> 2" by simp
  from partition_complete [OF this, of ?td]
  obtain ps where "partition_data ?td 2 = Inr ps" "concat ps = ?td" by blast
  moreover have "partition_data ?td 2 = Inr [[\<lparr>Features = [Fin 1], Label = Fin 1\<rparr>],
            [\<lparr>Features = [Fin 2], Label = Fin 2\<rparr>, \<lparr>Features = [Fin 3], Label = Fin 3\<rparr>]]"
    by (simp add: partition_data_def assign_inner assign_last)
  ultimately show ?thesis by simp
qed

text \<open>
  Claim C5, as the code has it. The first \<open>W - 1\<close> partitions have \<open>N div W\<close> points each
  and the last one has \<open>N div W + N mod W\<close>: it absorbs the whole remainder, so it can be
  up to \<open>W - 1\<close> points larger than the others. 100 points over 4 workers give 25 each.
\<close>

theorem partition_sizes:
  assumes "1 \<le> nw"
  shows "\<exists>ps. partition_data trainData nw = Inr ps
           \<and> map length ps = replicate (nat (nw - 1)) (length trainData div nat nw)
                 @ [length trainData div nat nw + length trainData mod nat nw]"
  using partition_closed [OF assms] by blast

theorem partition_sizes_witness:
  "(1::int) \<le> 4 \<and>
   map_sum id (map length) (partition_data (replicate 100 \<lparr>Features = [], Label = 0\<rparr>) 4)
     = Inr [25, 25, 25, 25]"
proof -
  let ?td = "replicate 100 \<lparr>Features = [], Label = 0::f64\<rparr>"
  have "(1::int) \<le> 4" by simp
  from partition_sizes [OF this, of ?td]
  obtain ps where ps: "partition_data ?td 4 = Inr ps"
    "map length ps = replicate (nat (4 - 1)) (length ?td div nat 4)
                 @ [length ?td div nat 4 + length ?td mod nat 4]"
    by blast
  have "replicate (nat (4 - 1)) (25::nat) @ [25] = [25, 25, 25, 25]"
    by (simp add: numeral_3_eq_3)
  then have "map length ps = [25, 25, 25, 25]"
    using ps(2) by simp
  then show ?thesis using ps(1) by simp
qed

text \<open>
  The sizes of claim C5 do not always differ by at most one: 10 points over 4 workers
  give the sizes 2, 2, 2 and 4.
\<close>

theorem partition_sizes_counterexample:
  "map_sum id (map length) (partition_data (replicate 10 \<lparr>Features = [], Label = 0\<rparr>) 4)
     = Inr [2, 2, 2, 4]"
  by (simp add: partition_data_def assign_inner assign_last)

section \<open>Properties of the steps of a worker\<close>

lemmas pcdefs = in_update_def in_metrics_def in_batch_def in_epoch_def

lemma div_step: "0 < (b::int) \<Longrightarrow> i mod b = 0 \<Longrightarrow> (i + b) mod b = 0 \<and> (i + b) div b = i div b + 1"
  by simp

lemma batches_of_exit:
  assumes "0 < b" "i mod b = 0" "int n \<le> i" "i < int n + b"
  shows "i div b = batches_of n b"
proof -
  obtain q where q: "i = q * b" using assms(2) by (metis mod_eq_0_iff_dvd dvd_def mult.commute)
  have bpos: "0 < real_of_int b" using assms(1) by simp
  have "real n \<le> real_of_int q * real_of_int b"
    using assms(3) q by (metis of_int_le_iff of_int_mult of_int_of_nat_eq)
  then have up: "real n / real_of_int b \<le> real_of_int q"
    using bpos by (simp add: pos_divide_le_eq)
  have "(q - 1) * b < int n" using assms(4) q by (simp add: algebra_simps)
  then have "real_of_int ((q - 1) * b) < real n"
    by (metis of_int_less_iff of_int_of_nat_eq)
  then have lo: "real_of_int q - 1 < real n / real_of_int b"
    using bpos by (simp add: pos_less_divide_eq)
  have "\<lceil>real n / real_of_int b\<rceil> = q"
    using up lo by (intro ceiling_unique) auto
  then show ?thesis using q assms(1) by (simp add: batches_of_def)
qed


lemma add_gradients_length:
  "add_gradients wg err fs j = Inr wg' \<Longrightarrow> length wg' = length wg"
  by (induction fs arbitrary: wg j) (auto split: if_splits)

lemma tw_AtEpoch:
  "pc w = AtEpoch \<Longrightarrow> trainWorker_step ep lr m w =
     (if l_epoch w < ep
      then Step m (w\<lparr>pc := AtBatch, l_batchErrors := [], l_i := 0\<rparr>)
      else Step m (w\<lparr>pc := AtDone\<rparr>))"
  by (simp add: trainWorker_step.simps)

lemma tw_AtBatch:
  "pc w = AtBatch \<Longrightarrow> trainWorker_step ep lr m w =
     (if l_i w < int (length (Data w)) then
        (case slice (Data w) (l_i w) (min (l_i w + BatchSize w) (int (length (Data w)))) of
           Inl e \<Rightarrow> Crash e
         | Inr b \<Rightarrow>
             Step m (w\<lparr>pc := AtPoint, l_batch := b, l_rest := b,
                       l_weightGradients := replicate (length (Weights m)) 0,
                       l_biasGradient := 0, l_batchError := 0\<rparr>))
      else Step m (w\<lparr>pc := AtMetricsLock, l_averageError := average (l_batchErrors w)\<rparr>))"
  by (simp add: trainWorker_step.simps Let_def min_def not_less)

lemma tw_AtPoint:
  "pc w = AtPoint \<Longrightarrow> trainWorker_step ep lr m w =
     (case l_rest w of
        [] \<Rightarrow> Step m (w\<lparr>pc := AtLock,
                        l_batchErrors := l_batchErrors w
                           @ [fdivn (l_batchError w) (length (l_batch w))]\<rparr>)
      | dp # rest \<Rightarrow> Step m (w\<lparr>pc := AtPredict, l_sum := Bias m, l_k := 0\<rparr>))"
  by (simp add: trainWorker_step.simps)

lemma tw_AtPredict:
  "pc w = AtPredict \<Longrightarrow> l_rest w = dp # rest \<Longrightarrow> trainWorker_step ep lr m w =
     (if l_k w < length (Weights m) then
        (if l_k w < length (Features dp)
         then Step m (w\<lparr>l_sum := l_sum w + Weights m ! l_k w * Features dp ! l_k w,
                        l_k := l_k w + 1\<rparr>)
         else Crash IndexOutOfRange)
      else
        (case add_gradients (l_weightGradients w) (l_sum w - Label dp) (Features dp) 0 of
           Inl e \<Rightarrow> Crash e
         | Inr wg \<Rightarrow>
             Step m (w\<lparr>pc := AtPoint, l_rest := rest,
                       l_batchError := l_batchError w + (l_sum w - Label dp) * (l_sum w - Label dp),
                       l_weightGradients := wg,
                       l_biasGradient := l_biasGradient w + (l_sum w - Label dp)\<rparr>)))"
  by (simp add: trainWorker_step.simps Let_def)

lemma tw_AtLock:
  "pc w = AtLock \<Longrightarrow> trainWorker_step ep lr m w =
     (if mu m then Wait else Step (m\<lparr>mu := True\<rparr>) (w\<lparr>pc := AtWeights, l_j := 0\<rparr>))"
  by (simp add: trainWorker_step.simps)

lemma tw_AtWeights:
  "pc w = AtWeights \<Longrightarrow> trainWorker_step ep lr m w =
     (if l_j w < length (Weights m) then
        (if l_j w < length (l_weightGradients w)
         then Step (m\<lparr>Weights := (Weights m)[l_j w := Weights m ! l_j w
                        - fdivn (lr * l_weightGradients w ! l_j w) (length (l_batch w))]\<rparr>)
                   (w\<lparr>l_j := l_j w + 1\<rparr>)
         else Crash IndexOutOfRange)
      else Step (m\<lparr>Bias := Bias m - fdivn (lr * l_biasGradient w) (length (l_batch w))\<rparr>)
                (w\<lparr>pc := AtUpdates\<rparr>))"
  by (simp add: trainWorker_step.simps)

lemma tw_AtUpdates:
  "pc w = AtUpdates \<Longrightarrow> trainWorker_step ep lr m w =
     Step (m\<lparr>Updates := Updates m + 1\<rparr>) (w\<lparr>pc := AtUnlock\<rparr>)"
  by (simp add: trainWorker_step.simps)

lemma tw_AtUnlock:
  "pc w = AtUnlock \<Longrightarrow> trainWorker_step ep lr m w =
     Step (m\<lparr>mu := False\<rparr>)
          (w\<lparr>pc := AtBatch, GradientSum := GradientSum w + 1, l_i := l_i w + BatchSize w\<rparr>)"
  by (simp add: trainWorker_step.simps)

lemma tw_AtMetricsLock:
  "pc w = AtMetricsLock \<Longrightarrow> trainWorker_step ep lr m w =
     (if MetricsMu m then Wait
      else Step (m\<lparr>MetricsMu := True\<rparr>) (w\<lparr>pc := AtMetricsWrite\<rparr>))"
  by (simp add: trainWorker_step.simps)

lemma tw_AtMetricsWrite:
  "pc w = AtMetricsWrite \<Longrightarrow> trainWorker_step ep lr m w =
     Step (m\<lparr>Metrics := (Metrics m)(l_epoch w \<mapsto> l_averageError w)\<rparr>)
          (w\<lparr>pc := AtMetricsUnlock\<rparr>)"
  by (simp add: trainWorker_step.simps)

lemma tw_AtMetricsUnlock:
  "pc w = AtMetricsUnlock \<Longrightarrow> trainWorker_step ep lr m w =
     Step (m\<lparr>MetricsMu := False\<rparr>) (w\<lparr>pc := AtEpoch, l_epoch := l_epoch w + 1\<rparr>)"
  by (simp add: trainWorker_step.simps)

lemma tw_AtDone: "pc w = AtDone \<Longrightarrow> trainWorker_step ep lr m w = Wait"
  by (simp add: trainWorker_step.simps)

lemmas tw_simps = tw_AtEpoch tw_AtBatch tw_AtPoint tw_AtLock tw_AtWeights tw_AtUpdates
  tw_AtUnlock tw_AtMetricsLock tw_AtMetricsWrite tw_AtMetricsUnlock tw_AtDone


lemma worker_step_inv:
  assumes st: "trainWorker_step (epochs cfg) lr m w = Step m' w'"
    and inv: "worker_inv cfg (length (Weights m)) w" and b: "0 < batchSize cfg"
  shows "worker_inv cfg (length (Weights m)) w'"
proof (cases "pc w")
  case AtEpoch
  show ?thesis
  proof (cases "l_epoch w < epochs cfg")
    case True
    then have w': "w' = w\<lparr>pc := AtBatch, l_batchErrors := [], l_i := 0\<rparr>"
      using st AtEpoch by (simp add: tw_AtEpoch)
    show ?thesis using inv AtEpoch True b unfolding w' worker_inv_def pcdefs by simp
  next
    case False
    then have w': "w' = w\<lparr>pc := AtDone\<rparr>"
      using st AtEpoch by (simp add: tw_AtEpoch)
    show ?thesis using inv AtEpoch False unfolding w' worker_inv_def pcdefs by simp
  qed
next
  case AtBatch
  have bs: "BatchSize w = batchSize cfg" and i0: "0 \<le> l_i w"
    using inv AtBatch by (simp_all add: worker_inv_def pcdefs)
  show ?thesis
  proof (cases "l_i w < int (length (Data w))")
    case True
    then obtain bt where bt: "slice (Data w) (l_i w) (min (l_i w + batchSize cfg) (int (length (Data w)))) = Inr bt"
      and w': "w' = w\<lparr>pc := AtPoint, l_batch := bt, l_rest := bt,
                       l_weightGradients := replicate (length (Weights m)) 0,
                       l_biasGradient := 0, l_batchError := 0\<rparr>"
      using st AtBatch bs by (auto simp: tw_AtBatch split: sum.splits)
    have "bt \<noteq> []" using bt True b i0 by (auto simp: slice_def split: if_splits)
    then show ?thesis
      using inv AtBatch True bt unfolding w' worker_inv_def pcdefs by simp
  next
    case False
    then have w': "w' = w\<lparr>pc := AtMetricsLock, l_averageError := average (l_batchErrors w)\<rparr>"
      using st AtBatch by (auto simp: tw_AtBatch)
    show ?thesis
      using inv AtBatch False unfolding w' worker_inv_def pcdefs by simp
  qed
next
  case AtPoint
  show ?thesis
  proof (cases "l_rest w")
    case Nil
    then have w': "w' = w\<lparr>pc := AtLock, l_batchErrors := l_batchErrors w
                           @ [fdivn (l_batchError w) (length (l_batch w))]\<rparr>"
      using st AtPoint by (auto simp: tw_AtPoint)
    show ?thesis using inv AtPoint unfolding w' worker_inv_def pcdefs by simp
  next
    case (Cons dp rest)
    then have w': "w' = w\<lparr>pc := AtPredict, l_sum := Bias m, l_k := 0\<rparr>"
      using st AtPoint by (auto simp: tw_AtPoint)
    show ?thesis using inv AtPoint Cons unfolding w' worker_inv_def pcdefs by simp
  qed
next
  case AtPredict
  then obtain dp rest where r: "l_rest w = dp # rest"
    using inv by (cases "l_rest w") (auto simp: worker_inv_def)
  show ?thesis
  proof (cases "l_k w < length (Weights m)")
    case True
    then have "w' = w\<lparr>l_sum := l_sum w + Weights m ! l_k w * Features dp ! l_k w,
                      l_k := l_k w + 1\<rparr>"
      using st by (auto simp: tw_AtPredict [OF AtPredict r] split: if_splits)
    then show ?thesis
      using inv AtPredict r by (simp add: worker_inv_def pcdefs)
  next
    case False
    then obtain wg where wg: "add_gradients (l_weightGradients w) (l_sum w - Label dp) (Features dp) 0 = Inr wg"
      and w': "w' = w\<lparr>pc := AtPoint, l_rest := rest,
                      l_batchError := l_batchError w + (l_sum w - Label dp) * (l_sum w - Label dp),
                      l_weightGradients := wg,
                      l_biasGradient := l_biasGradient w + (l_sum w - Label dp)\<rparr>"
      using st by (auto simp: tw_AtPredict [OF AtPredict r] split: sum.splits)
    show ?thesis
      using inv AtPredict add_gradients_length [OF wg] unfolding w' worker_inv_def pcdefs by simp
  qed
next
  case AtLock
  then have w': "w' = w\<lparr>pc := AtWeights, l_j := 0\<rparr>"
    using st by (auto simp: tw_AtLock split: if_splits)
  show ?thesis using inv AtLock unfolding w' worker_inv_def pcdefs by simp
next
  case AtWeights
  then have "w' = w\<lparr>l_j := l_j w + 1\<rparr> \<or> w' = w\<lparr>pc := AtUpdates\<rparr>"
    using st by (auto simp: tw_AtWeights split: if_splits)
  then show ?thesis
  proof
    assume w': "w' = w\<lparr>l_j := l_j w + 1\<rparr>"
    show ?thesis using inv AtWeights unfolding w' worker_inv_def pcdefs by simp
  next
    assume w': "w' = w\<lparr>pc := AtUpdates\<rparr>"
    show ?thesis using inv AtWeights unfolding w' worker_inv_def pcdefs by simp
  qed
next
  case AtUpdates
  then have w': "w' = w\<lparr>pc := AtUnlock\<rparr>"
    using st by (auto simp: tw_AtUpdates)
  show ?thesis using inv AtUpdates unfolding w' worker_inv_def pcdefs by simp
next
  case AtUnlock
  then have w': "w' = w\<lparr>pc := AtBatch, GradientSum := GradientSum w + 1,
                         l_i := l_i w + BatchSize w\<rparr>"
    using st by (auto simp: tw_AtUnlock)
  have bs: "BatchSize w = batchSize cfg" using inv by (simp add: worker_inv_def)
  have m: "l_i w mod batchSize cfg = 0" using inv AtUnlock by (simp add: worker_inv_def pcdefs)
  note d = div_step [OF b m]
  show ?thesis
    using inv AtUnlock b d bs unfolding w' worker_inv_def pcdefs by simp
next
  case AtMetricsLock
  then have w': "w' = w\<lparr>pc := AtMetricsWrite\<rparr>"
    using st by (auto simp: tw_AtMetricsLock split: if_splits)
  show ?thesis using inv AtMetricsLock unfolding w' worker_inv_def pcdefs by simp
next
  case AtMetricsWrite
  then have w': "w' = w\<lparr>pc := AtMetricsUnlock\<rparr>"
    using st by (auto simp: tw_AtMetricsWrite)
  show ?thesis using inv AtMetricsWrite unfolding w' worker_inv_def pcdefs by simp
next
  case AtMetricsUnlock
  then have w': "w' = w\<lparr>pc := AtEpoch, l_epoch := l_epoch w + 1\<rparr>"
    using st by (auto simp: tw_AtMetricsUnlock)
  have f: "l_i w mod batchSize cfg = 0" "int (length (Data w)) \<le> l_i w"
      "l_i w < int (length (Data w)) + batchSize cfg"
    using inv AtMetricsUnlock by (simp_all add: worker_inv_def pcdefs)
  note e = batches_of_exit [OF b f]
  show ?thesis
    using inv AtMetricsUnlock b e unfolding w' worker_inv_def pcdefs by (simp add: algebra_simps)
next
  case AtDone
  then show ?thesis using st by (simp add: tw_AtDone)
qed

lemma step_SomeD:
  assumes "step cfg n s = Some s'"
  shows "crashed s = None \<and> n < length (workers s) \<and>
     ((\<exists>m w. trainWorker_step (epochs cfg) (learningRate cfg) (model s) (workers s ! n) = Step m w
          \<and> s' = s\<lparr>model := m, workers := (workers s)[n := w]\<rparr>)
      \<or> (\<exists>e. trainWorker_step (epochs cfg) (learningRate cfg) (model s) (workers s ! n) = Crash e
          \<and> s' = s\<lparr>crashed := Some e\<rparr>))"
  using assms by (auto simp: step_def split: if_splits outcome.splits)

lemma sum_list_map_update:
  fixes f :: "'a \<Rightarrow> int"
  shows "n < length ws \<Longrightarrow>
    sum_list (map f (ws[n := w])) = sum_list (map f ws) - f (ws ! n) + f w"
proof (induction ws arbitrary: n)
  case Nil
  then show ?case by simp
next
  case (Cons a ws)
  then show ?case by (cases n) auto
qed

lemma mutex_update:
  assumes L: "L \<longleftrightarrow> (\<exists>k < length ws. P (ws ! k))"
    and U: "\<forall>k < length ws. \<forall>k' < length ws. P (ws ! k) \<and> P (ws ! k') \<longrightarrow> k = k'"
    and n: "n < length ws"
    and enter: "P w' \<and> \<not> P (ws ! n) \<longrightarrow> \<not> L \<and> L'"
    and leave: "\<not> P w' \<and> P (ws ! n) \<longrightarrow> \<not> L'"
    and stay: "(P w' \<longleftrightarrow> P (ws ! n)) \<longrightarrow> L' = L"
  shows "(L' \<longleftrightarrow> (\<exists>k < length (ws[n := w']). P (ws[n := w'] ! k)))
       \<and> (\<forall>k < length (ws[n := w']). \<forall>k' < length (ws[n := w']).
             P (ws[n := w'] ! k) \<and> P (ws[n := w'] ! k') \<longrightarrow> k = k')"
proof -
  have others: "\<And>k. k < length ws \<Longrightarrow> k \<noteq> n \<Longrightarrow> P (ws ! n) \<Longrightarrow> \<not> P (ws ! k)"
    using U n by blast
  consider (enter) "P w'" "\<not> P (ws ! n)" | (leave) "\<not> P w'" "P (ws ! n)"
    | (stay) "P w' \<longleftrightarrow> P (ws ! n)" by blast
  then show ?thesis
  proof cases
    case enter
    then have nl: "\<not> L" and l': "L'" using assms(4) by auto
    from nl have none: "\<And>k. k < length ws \<Longrightarrow> \<not> P (ws ! k)" using L by blast
    show ?thesis
      using l' none n enter by (auto simp: nth_list_update)
  next
    case leave
    then have l': "\<not> L'" using assms(5) by auto
    show ?thesis
      using l' others leave n by (auto simp: nth_list_update)
  next
    case stay
    then have l': "L' = L" using assms(6) by auto
    have iff: "P (ws[n := w'] ! k) \<longleftrightarrow> P (ws ! k)" if "k < length ws" for k
      using stay that by (cases "k = n") simp_all
    show ?thesis
      using l' L U iff by (simp cong: conj_cong)
  qed
qed


lemma tw_AtPredict_Nil:
  "pc w = AtPredict \<Longrightarrow> l_rest w = [] \<Longrightarrow> trainWorker_step ep lr m w = Crash IndexOutOfRange"
  by (simp add: trainWorker_step.simps)

lemma worker_step_effect:
  assumes st: "trainWorker_step ep lr m w = Step m' w'"
  shows "length (Weights m') = length (Weights m) \<and> Data w' = Data w
    \<and> mu m' = (if pc w = AtLock then True else if pc w = AtUnlock then False else mu m)
    \<and> (pc w = AtLock \<longrightarrow> \<not> mu m)
    \<and> (in_update w' \<longleftrightarrow> pc w = AtLock \<or> pc w = AtWeights \<or> pc w = AtUpdates)
    \<and> MetricsMu m' = (if pc w = AtMetricsLock then True
                       else if pc w = AtMetricsUnlock then False else MetricsMu m)
    \<and> (pc w = AtMetricsLock \<longrightarrow> \<not> MetricsMu m)
    \<and> (in_metrics w' \<longleftrightarrow> pc w = AtMetricsLock \<or> pc w = AtMetricsWrite)
    \<and> Updates m' = Updates m + (if pc w = AtUpdates then 1 else 0)
    \<and> GradientSum w' + (if pc w' = AtUnlock then 1 else 0)
        = GradientSum w + (if pc w = AtUnlock then 1 else 0)
          + (if pc w = AtUpdates then 1 else 0)"
proof (cases "pc w")
  case AtEpoch
  then show ?thesis using st by (auto simp: tw_AtEpoch pcdefs split: if_splits)
next
  case AtBatch
  then show ?thesis using st by (auto simp: tw_AtBatch pcdefs split: if_splits sum.splits)
next
  case AtPoint
  then show ?thesis using st by (auto simp: tw_AtPoint pcdefs split: list.splits)
next
  case AtPredict
  show ?thesis
  proof (cases "l_rest w")
    case Nil
    then show ?thesis using st AtPredict by (simp add: tw_AtPredict_Nil)
  next
    case (Cons dp rest)
    show ?thesis using st AtPredict
      by (auto simp: tw_AtPredict [OF AtPredict Cons] pcdefs split: if_splits sum.splits)
  qed
next
  case AtLock
  then show ?thesis using st by (auto simp: tw_AtLock pcdefs split: if_splits)
next
  case AtWeights
  then show ?thesis using st by (auto simp: tw_AtWeights pcdefs split: if_splits)
next
  case AtUpdates
  then show ?thesis using st by (auto simp: tw_AtUpdates pcdefs)
next
  case AtUnlock
  then show ?thesis using st by (auto simp: tw_AtUnlock pcdefs)
next
  case AtMetricsLock
  then show ?thesis using st by (auto simp: tw_AtMetricsLock pcdefs split: if_splits)
next
  case AtMetricsWrite
  then show ?thesis using st by (auto simp: tw_AtMetricsWrite pcdefs)
next
  case AtMetricsUnlock
  then show ?thesis using st by (auto simp: tw_AtMetricsUnlock pcdefs)
next
  case AtDone
  then show ?thesis using st by (simp add: tw_AtDone)
qed

lemma state_inv_step:
  assumes inv: "state_inv cfg td fc s" and st: "step cfg n s = Some s'"
  shows "state_inv cfg td fc s'"
proof -
  let ?ws = "workers s"
  let ?w = "?ws ! n"
  from step_SomeD [OF st] have n: "n < length ?ws" by simp
  from step_SomeD [OF st] consider
    (move) m' w' where "trainWorker_step (epochs cfg) (learningRate cfg) (model s) ?w = Step m' w'"
       "s' = s\<lparr>model := m', workers := ?ws[n := w']\<rparr>"
    | (crash) e where "s' = s\<lparr>crashed := Some e\<rparr>"
    by blast
  then show ?thesis
  proof cases
    case crash
    then show ?thesis using inv by (simp add: state_inv_def)
  next
    case move
    note eff = worker_step_effect [OF move(1)]
    have fc: "length (Weights (model s)) = fc" using inv by (simp add: state_inv_def)
    have p1: "partition_data td (numWorkers cfg) = Inr (map Data (?ws[n := w']))"
    proof -
      have "map Data (?ws[n := w']) = (map Data ?ws)[n := Data ?w]"
        using eff by (simp add: map_update)
      also have "\<dots> = map Data ?ws" using n by (simp add: list_update_same_conv)
      finally show ?thesis using inv by (simp add: state_inv_def)
    qed
    have p2: "length (Weights m') = fc" using eff fc by simp
    have mu_old: "mu (model s) \<longleftrightarrow> (\<exists>k < length ?ws. in_update (?ws ! k))"
      and mu_uni: "\<forall>k < length ?ws. \<forall>k' < length ?ws.
          in_update (?ws ! k) \<and> in_update (?ws ! k') \<longrightarrow> k = k'"
      and mm_old: "MetricsMu (model s) \<longleftrightarrow> (\<exists>k < length ?ws. in_metrics (?ws ! k))"
      and mm_uni: "\<forall>k < length ?ws. \<forall>k' < length ?ws.
          in_metrics (?ws ! k) \<and> in_metrics (?ws ! k') \<longrightarrow> k = k'"
      and upd: "Updates (model s)
         = (\<Sum>w\<leftarrow>?ws. GradientSum w + (if pc w = AtUnlock then 1 else 0))"
      using inv by (simp_all add: state_inv_def)
    have held: "in_update ?w \<Longrightarrow> mu (model s)" using mu_old n by blast
    have p45: "(mu m' \<longleftrightarrow> (\<exists>k < length (?ws[n := w']). in_update (?ws[n := w'] ! k)))
       \<and> (\<forall>k < length (?ws[n := w']). \<forall>k' < length (?ws[n := w']).
             in_update (?ws[n := w'] ! k) \<and> in_update (?ws[n := w'] ! k') \<longrightarrow> k = k')"
    proof (rule mutex_update [OF mu_old mu_uni n])
      show "in_update w' \<and> \<not> in_update ?w \<longrightarrow> \<not> mu (model s) \<and> mu m'"
        using eff by (auto simp: in_update_def)
      show "\<not> in_update w' \<and> in_update ?w \<longrightarrow> \<not> mu m'"
        using eff by (auto simp: in_update_def)
      show "(in_update w' \<longleftrightarrow> in_update ?w) \<longrightarrow> mu m' = mu (model s)"
        using eff by (auto simp: in_update_def)
    qed
    have p67: "(MetricsMu m' \<longleftrightarrow> (\<exists>k < length (?ws[n := w']). in_metrics (?ws[n := w'] ! k)))
       \<and> (\<forall>k < length (?ws[n := w']). \<forall>k' < length (?ws[n := w']).
             in_metrics (?ws[n := w'] ! k) \<and> in_metrics (?ws[n := w'] ! k') \<longrightarrow> k = k')"
    proof (rule mutex_update [OF mm_old mm_uni n])
      show "in_metrics w' \<and> \<not> in_metrics ?w \<longrightarrow> \<not> MetricsMu (model s) \<and> MetricsMu m'"
        using eff by (auto simp: in_metrics_def)
      show "\<not> in_metrics w' \<and> in_metrics ?w \<longrightarrow> \<not> MetricsMu m'"
        using eff by (auto simp: in_metrics_def)
      show "(in_metrics w' \<longleftrightarrow> in_metrics ?w) \<longrightarrow> MetricsMu m' = MetricsMu (model s)"
        using eff by (auto simp: in_metrics_def)
    qed
    have p8: "Updates m'
         = (\<Sum>w\<leftarrow>?ws[n := w']. GradientSum w + (if pc w = AtUnlock then 1 else 0))"
      using eff upd n
      by (simp add: sum_list_map_update [OF n, of "\<lambda>w. GradientSum w + (if pc w = AtUnlock then 1 else 0)"])
    show ?thesis
      unfolding state_inv_def move(2) using p1 p2 p45 p67 p8 by simp
  qed
qed

lemma workers_inv_step:
  assumes inv: "workers_inv cfg fc s" and fc: "length (Weights (model s)) = fc"
    and st: "step cfg n s = Some s'" and b: "0 < batchSize cfg"
  shows "workers_inv cfg fc s'"
proof -
  let ?ws = "workers s"
  let ?w = "?ws ! n"
  from step_SomeD [OF st] have n: "n < length ?ws" by simp
  from step_SomeD [OF st] consider
    (move) m' w' where "trainWorker_step (epochs cfg) (learningRate cfg) (model s) ?w = Step m' w'"
       "s' = s\<lparr>model := m', workers := ?ws[n := w']\<rparr>"
    | (crash) e where "s' = s\<lparr>crashed := Some e\<rparr>"
    by blast
  then show ?thesis
  proof cases
    case crash
    then show ?thesis using inv by (simp add: workers_inv_def)
  next
    case move
    have winv: "worker_inv cfg (length (Weights (model s))) ?w"
      using inv n fc by (simp add: workers_inv_def)
    have winv': "worker_inv cfg fc w'"
      using worker_step_inv [OF move(1) winv b] fc by simp
    have "\<forall>k < length (?ws[n := w']). worker_inv cfg fc (?ws[n := w'] ! k)"
    proof (intro allI impI)
      fix k assume "k < length (?ws[n := w'])"
      then have "worker_inv cfg fc (?ws ! k)" using inv by (simp add: workers_inv_def)
      then show "worker_inv cfg fc (?ws[n := w'] ! k)"
        using winv' n by (cases "k = n") simp_all
    qed
    then show ?thesis unfolding workers_inv_def move(2) by simp
  qed
qed

lemma start_workers:
  assumes "start cfg td fc = Inr s"
  shows "partition_data td (numWorkers cfg) = Inr (map Data (workers s))
    \<and> model s = newModel fc \<and> crashed s = None
    \<and> (\<forall>k < length (workers s).
          workers s ! k = newWorker (int k) (map Data (workers s) ! k) (batchSize cfg))"
proof -
  obtain ps where ps: "partition_data td (numWorkers cfg) = Inr ps"
    and s: "s = \<lparr>model = newModel fc,
               workers = map (\<lambda>(i, d). newWorker (int i) d (batchSize cfg)) (enumerate 0 ps),
               crashed = None\<rparr>"
    using assms by (auto simp: start_def split: sum.splits)
  have len: "length (workers s) = length ps" unfolding s by simp
  have nth: "workers s ! k = newWorker (int k) (ps ! k) (batchSize cfg)" if "k < length ps" for k
    unfolding s using that by (simp add: nth_enumerate_eq)
  have "Data (workers s ! k) = ps ! k" if "k < length ps" for k
    using nth [OF that] by (simp add: newWorker_def)
  then have d: "map Data (workers s) = ps"
    using len by (intro nth_equalityI) simp_all
  show ?thesis using ps s d nth len by simp
qed


lemma newWorker_inv: "0 < batchSize cfg \<Longrightarrow> worker_inv cfg fc (newWorker i d (batchSize cfg))"
  by (simp add: worker_inv_def newWorker_def pcdefs)

lemma sum_list_all_zero:
  fixes f :: "'a \<Rightarrow> int"
  shows "(\<forall>k < length xs. f (xs ! k) = 0) \<Longrightarrow> sum_list (map f xs) = 0"
proof (induction xs)
  case Nil
  then show ?case by simp
next
  case (Cons a xs)
  then have "f a = 0" "\<forall>k < length xs. f (xs ! k) = 0" by auto
  then show ?case using Cons.IH by simp
qed

lemma state_inv_start:
  assumes st: "start cfg td fc = Inr s"
  shows "state_inv cfg td fc s"
proof -
  note sw = start_workers [OF st]
  have nth: "\<And>k. k < length (workers s) \<Longrightarrow>
      workers s ! k = newWorker (int k) (map Data (workers s) ! k) (batchSize cfg)"
    using sw by blast
  have pcs: "pc (workers s ! k) = AtEpoch \<and> GradientSum (workers s ! k) = 0"
    if "k < length (workers s)" for k
  proof -
    have "pc (newWorker (int k) (map Data (workers s) ! k) (batchSize cfg)) = AtEpoch"
      "GradientSum (newWorker (int k) (map Data (workers s) ! k) (batchSize cfg)) = 0"
      by (simp_all add: newWorker_def)
    then show ?thesis using nth [OF that] by simp
  qed
  have nu: "\<forall>k < length (workers s). \<not> in_update (workers s ! k)"
    and nm: "\<forall>k < length (workers s). \<not> in_metrics (workers s ! k)"
    using pcs by (simp_all add: pcdefs)
  have sum0: "(\<Sum>w\<leftarrow>workers s. GradientSum w + (if pc w = AtUnlock then 1 else 0)) = 0"
    by (rule sum_list_all_zero) (simp add: pcs)
  have m: "length (Weights (model s)) = fc" "\<not> mu (model s)" "\<not> MetricsMu (model s)"
    "Updates (model s) = 0"
    using sw by (simp_all add: newModel_def)
  have p: "partition_data td (numWorkers cfg) = Inr (map Data (workers s))" using sw by simp
  show ?thesis
    unfolding state_inv_def
    apply (intro conjI)
    subgoal by (rule p)
    subgoal by (rule m)
    subgoal using m nu by blast
    subgoal using nu by blast
    subgoal using m nm by blast
    subgoal using nm by blast
    subgoal using m sum0 by simp
    done
qed


lemma workers_inv_start:
  assumes st: "start cfg td fc = Inr s" and b: "0 < batchSize cfg"
  shows "workers_inv cfg fc s"
  unfolding workers_inv_def
proof (intro allI impI)
  fix k assume "k < length (workers s)"
  then have "workers s ! k = newWorker (int k) (map Data (workers s) ! k) (batchSize cfg)"
    using start_workers [OF st] by blast
  then show "worker_inv cfg fc (workers s ! k)"
    using newWorker_inv [OF b] by simp
qed

lemma reachable_inv:
  assumes "reachable cfg td fc s"
  shows "state_inv cfg td fc s"
  using assms
proof (induction rule: reachable.induct)
  case (reach_start s)
  then show ?case by (simp add: state_inv_start)
next
  case (reach_step s n s')
  then show ?case using state_inv_step by blast
qed

lemma reachable_workers_inv:
  assumes "reachable cfg td fc s" and "0 < batchSize cfg"
  shows "workers_inv cfg fc s"
  using assms
proof (induction rule: reachable.induct)
  case (reach_start s)
  then show ?case by (simp add: workers_inv_start)
next
  case (reach_step s n s')
  then have "length (Weights (model s)) = fc"
    using reachable_inv by (simp add: state_inv_def)
  then show ?case using reach_step workers_inv_step by blast
qed

lemma reachable_run:
  "reachable cfg td fc s \<Longrightarrow> reachable cfg td fc (run cfg ns s)"
proof (induction ns arbitrary: s)
  case Nil
  then show ?case by simp
next
  case (Cons n ns)
  show ?case
  proof (cases "step cfg n s")
    case None
    then show ?thesis using Cons by simp
  next
    case (Some s')
    have "reachable cfg td fc s'" using Cons.prems Some by (rule reachable.reach_step)
    then show ?thesis using Cons.IH Some by simp
  qed
qed

lemma sum_list_map_cong_nth:
  fixes f g :: "'a \<Rightarrow> int"
  shows "(\<forall>k < length xs. f (xs ! k) = g (xs ! k)) \<Longrightarrow> sum_list (map f xs) = sum_list (map g xs)"
proof (induction xs)
  case Nil
  then show ?case by simp
next
  case (Cons a xs)
  then have "f a = g a" "\<forall>k < length xs. f (xs ! k) = g (xs ! k)" by auto
  then show ?case using Cons.IH by simp
qed

lemma update_count_aux:
  assumes r: "reachable cfg td fc s" and f: "finished s"
    and b: "0 < batchSize cfg" and e: "0 \<le> epochs cfg"
  shows "partition_data td (numWorkers cfg) = Inr (map Data (workers s)) \<and>
     Updates (model s) = epochs cfg
        * (\<Sum>p\<leftarrow>map Data (workers s). batches_of (length p) (batchSize cfg))"
proof -
  note inv = reachable_inv [OF r]
  note winv = reachable_workers_inv [OF r b]
  have each: "GradientSum (workers s ! k) + (if pc (workers s ! k) = AtUnlock then 1 else 0)
      = epochs cfg * batches_of (length (Data (workers s ! k))) (batchSize cfg)"
    if k: "k < length (workers s)" for k
  proof -
    let ?w = "workers s ! k"
    have wi: "worker_inv cfg fc ?w" using winv k by (simp add: workers_inv_def)
    have d: "pc ?w = AtDone" using f k by (simp add: finished_def)
    have "epochs cfg \<le> l_epoch ?w" "l_epoch ?w \<le> epochs cfg \<or> l_epoch ?w = 0"
      using wi d by (simp_all add: worker_inv_def)
    then have le: "l_epoch ?w = epochs cfg" using e by linarith
    have "GradientSum ?w = l_epoch ?w * batches_of (length (Data ?w)) (batchSize cfg)"
      using wi d by (simp add: worker_inv_def pcdefs)
    then show ?thesis using le d by simp
  qed
  have "Updates (model s)
      = (\<Sum>w\<leftarrow>workers s. GradientSum w + (if pc w = AtUnlock then 1 else 0))"
    using inv by (simp add: state_inv_def)
  also have "\<dots> = (\<Sum>w\<leftarrow>workers s. epochs cfg * batches_of (length (Data w)) (batchSize cfg))"
    by (rule sum_list_map_cong_nth) (simp add: each)
  also have "\<dots> = epochs cfg * (\<Sum>w\<leftarrow>workers s. batches_of (length (Data w)) (batchSize cfg))"
    by (simp add: sum_list_const_mult)
  also have "(\<Sum>w\<leftarrow>workers s. batches_of (length (Data w)) (batchSize cfg))
      = (\<Sum>p\<leftarrow>map Data (workers s). batches_of (length p) (batchSize cfg))"
    by (simp add: comp_def)
  finally show ?thesis using inv by (simp add: state_inv_def)
qed

section \<open>The claims about the running trainer\<close>

text \<open>
  Claim C1. In every state that a run with a positive batch size and a non-negative
  epoch count can reach, once every worker has returned the update counter of the model
  is the epoch count times the sum, over the partitions of the workers, of
  \<open>ceil(partitionSize / batchSize)\<close>: one counted gradient application per batch. This
  holds for every interleaving of the workers, every training set and every worker
  count for which the trainer starts.
\<close>

theorem update_count:
  assumes "reachable cfg trainData featureCount s" and "finished s"
    and "0 < batchSize cfg" and "0 \<le> epochs cfg"
  shows "\<exists>ps. partition_data trainData (numWorkers cfg) = Inr ps \<and>
     Updates (model s)
       = epochs cfg * (\<Sum>p\<leftarrow>ps. \<lceil>real (length p) / real_of_int (batchSize cfg)\<rceil>)"
  using update_count_aux [OF assms] by (auto simp: batches_of_def)

theorem update_count_witness:
  "(case start \<lparr>numWorkers = 2, batchSize = 1, epochs = 2, learningRate = Fin 1\<rparr>
           [\<lparr>Features = [Fin 1], Label = Fin 1\<rparr>, \<lparr>Features = [Fin 1], Label = Fin 2\<rparr>,
            \<lparr>Features = [Fin 1], Label = Fin 3\<rparr>] 1 of
      Inl e \<Rightarrow> False
    | Inr s0 \<Rightarrow>
        reachable \<lparr>numWorkers = 2, batchSize = 1, epochs = 2, learningRate = Fin 1\<rparr>
           [\<lparr>Features = [Fin 1], Label = Fin 1\<rparr>, \<lparr>Features = [Fin 1], Label = Fin 2\<rparr>,
            \<lparr>Features = [Fin 1], Label = Fin 3\<rparr>] 1
           (run \<lparr>numWorkers = 2, batchSize = 1, epochs = 2, learningRate = Fin 1\<rparr>
              (concat (replicate 60 [0, 1])) s0)
        \<and> finished (run \<lparr>numWorkers = 2, batchSize = 1, epochs = 2, learningRate = Fin 1\<rparr>
              (concat (replicate 60 [0, 1])) s0)
        \<and> Updates (model (run \<lparr>numWorkers = 2, batchSize = 1, epochs = 2, learningRate = Fin 1\<rparr>
              (concat (replicate 60 [0, 1])) s0)) = 2 * (1 + 2))"
proof -
  let ?cfg = "\<lparr>numWorkers = 2, batchSize = 1, epochs = 2, learningRate = Fin 1\<rparr>"
  let ?td = "[\<lparr>Features = [Fin 1], Label = Fin 1\<rparr>, \<lparr>Features = [Fin 1], Label = Fin 2\<rparr>,
            \<lparr>Features = [Fin 1], Label = Fin 3\<rparr>]"
  let ?p = "[[\<lparr>Features = [Fin 1], Label = Fin 1\<rparr>],
             [\<lparr>Features = [Fin 1], Label = Fin 2\<rparr>, \<lparr>Features = [Fin 1], Label = Fin 3\<rparr>]]"
  have p: "partition_data ?td (numWorkers ?cfg) = Inr ?p"
    by (simp add: partition_data_def assign_inner assign_last)
  then obtain s0 where s0: "start ?cfg ?td 1 = Inr s0" by (simp add: start_def)
  let ?s = "run ?cfg (concat (replicate 60 [0, 1])) s0"
  have r: "reachable ?cfg ?td 1 ?s"
    using s0 by (intro reachable_run reachable.reach_start)
  have "case start ?cfg ?td 1 of Inl e \<Rightarrow> False
        | Inr s \<Rightarrow> finished (run ?cfg (concat (replicate 60 [0, 1])) s)"
    by code_simp
  then have f: "finished ?s" using s0 by simp
  have "\<exists>ps. partition_data ?td (numWorkers ?cfg) = Inr ps \<and> Updates (model ?s)
       = epochs ?cfg * (\<Sum>p\<leftarrow>ps. \<lceil>real (length p) / real_of_int (batchSize ?cfg)\<rceil>)"
    using r f by (intro update_count) simp_all
  then have "Updates (model ?s) = 2 * (1 + 2)" using p by auto
  then show ?thesis using s0 r f by simp
qed

lemma start_isl: "isl (start cfg td fc) \<longleftrightarrow> numWorkers cfg \<le> 0"
proof (cases "1 \<le> numWorkers cfg")
  case True
  then obtain ps where "partition_data td (numWorkers cfg) = Inr ps"
    using partition_closed by blast
  then show ?thesis using True by (simp add: start_def)
next
  case False
  then have "isl (partition_data td (numWorkers cfg))"
    by (simp add: partition_data_def)
  then show ?thesis using False by (auto simp: start_def split: sum.splits)
qed







lemma worker_step_writes:
  assumes st: "trainWorker_step ep lr m w = Step m' w'"
    and "pc w \<noteq> AtWeights" and "pc w \<noteq> AtUpdates"
  shows "Weights m' = Weights m \<and> Bias m' = Bias m \<and> Updates m' = Updates m"
proof (cases "pc w")
  case AtEpoch
  then show ?thesis using st by (auto simp: tw_AtEpoch split: if_splits)
next
  case AtBatch
  then show ?thesis using st by (auto simp: tw_AtBatch split: if_splits sum.splits)
next
  case AtPoint
  then show ?thesis using st by (auto simp: tw_AtPoint split: list.splits)
next
  case AtPredict
  show ?thesis
  proof (cases "l_rest w")
    case Nil
    then show ?thesis using st AtPredict by (simp add: tw_AtPredict_Nil)
  next
    case (Cons dp rest)
    show ?thesis using st
      by (auto simp: tw_AtPredict [OF AtPredict Cons] split: if_splits sum.splits)
  qed
next
  case AtLock
  then show ?thesis using st by (auto simp: tw_AtLock split: if_splits)
next
  case AtWeights
  then show ?thesis using assms by simp
next
  case AtUpdates
  then show ?thesis using assms by simp
next
  case AtUnlock
  then show ?thesis using st by (auto simp: tw_AtUnlock)
next
  case AtMetricsLock
  then show ?thesis using st by (auto simp: tw_AtMetricsLock split: if_splits)
next
  case AtMetricsWrite
  then show ?thesis using st by (auto simp: tw_AtMetricsWrite)
next
  case AtMetricsUnlock
  then show ?thesis using st by (auto simp: tw_AtMetricsUnlock)
next
  case AtDone
  then show ?thesis using st by (simp add: tw_AtDone)
qed

lemma step_model_effect:
  assumes st: "step cfg n s = Some s'"
  shows "length (Weights (model s')) = length (Weights (model s))
    \<and> Updates (model s') = Updates (model s) + (if pc (workers s ! n) = AtUpdates then 1 else 0)
    \<and> (Weights (model s') \<noteq> Weights (model s) \<or> Bias (model s') \<noteq> Bias (model s)
         \<or> Updates (model s') \<noteq> Updates (model s) \<longrightarrow> in_update (workers s ! n))
    \<and> (\<forall>k. k \<noteq> n \<longrightarrow> workers s' ! k = workers s ! k)"
proof -
  let ?w = "workers s ! n"
  from step_SomeD [OF st] consider
    (move) m' w' where "trainWorker_step (epochs cfg) (learningRate cfg) (model s) ?w = Step m' w'"
       "s' = s\<lparr>model := m', workers := (workers s)[n := w']\<rparr>"
    | (crash) e where "trainWorker_step (epochs cfg) (learningRate cfg) (model s) ?w = Crash e"
       "s' = s\<lparr>crashed := Some e\<rparr>"
    by blast
  then show ?thesis
  proof cases
    case move
    note eff = worker_step_effect [OF move(1)]
    have wr: "pc ?w \<noteq> AtWeights \<Longrightarrow> pc ?w \<noteq> AtUpdates \<Longrightarrow>
       Weights m' = Weights (model s) \<and> Bias m' = Bias (model s) \<and> Updates m' = Updates (model s)"
      using worker_step_writes [OF move(1)] by simp
    show ?thesis
      unfolding move(2) using eff wr by (auto simp: in_update_def)
  next
    case crash
    have "pc ?w \<noteq> AtUpdates" using crash(1) by (auto simp: tw_AtUpdates)
    then show ?thesis unfolding crash(2) by simp
  qed
qed

text \<open>
  Against the last part of claim C3: a prediction reads the weights without holding
  \<open>mu\<close>. Worker 0 runs up to the middle of its critical section, where it has
  overwritten \<open>Weights[0]\<close> (now 1) and not yet \<open>Weights[1]\<close> (still 0); worker 1 then
  runs its \<open>predict\<close> and reads both components of this half-written vector. Its sum is
  1, where the weights before the update give 0 and the weights after it give 2.
\<close>

theorem torn_read_counterexample:
  "map_sum id (run \<lparr>numWorkers = 2, batchSize = 1, epochs = 1, learningRate = Fin 1\<rparr>
                 [0, 0, 0, 0, 0, 0, 0, 0, 0, 1, 1, 1, 1, 1])
     (start \<lparr>numWorkers = 2, batchSize = 1, epochs = 1, learningRate = Fin 1\<rparr>
        [\<lparr>Features = [Fin 1, Fin 1], Label = Fin 1\<rparr>,
         \<lparr>Features = [Fin 1, Fin 1], Label = Fin 1\<rparr>] 2)
   = Inr \<lparr>model =
        \<lparr>Weights = [Fin 1, Fin 0], Bias = Fin 0, mu = True, Updates = 0,
           Metrics = Map.empty, MetricsMu = False\<rparr>,
        workers =
          [\<lparr>ID = 0, Data = [\<lparr>Features = [Fin 1, Fin 1], Label = Fin 1\<rparr>],
              BatchSize = 1, GradientSum = 0, pc = AtWeights, l_epoch = 0,
              l_batchErrors = [Fin 1], l_i = 0,
              l_batch = [\<lparr>Features = [Fin 1, Fin 1], Label = Fin 1\<rparr>],
              l_rest = [], l_weightGradients = [Fin (- 1), Fin (- 1)],
              l_biasGradient = Fin (- 1), l_batchError = Fin 1,
              l_sum = Fin 0, l_k = 2, l_j = 1, l_averageError = Fin 0\<rparr>,
           \<lparr>ID = 1, Data = [\<lparr>Features = [Fin 1, Fin 1], Label = Fin 1\<rparr>],
              BatchSize = 1, GradientSum = 0, pc = AtPredict, l_epoch = 0,
              l_batchErrors = [], l_i = 0,
              l_batch = [\<lparr>Features = [Fin 1, Fin 1], Label = Fin 1\<rparr>],
              l_rest = [\<lparr>Features = [Fin 1, Fin 1], Label = Fin 1\<rparr>],
              l_weightGradients = [Fin 0, Fin 0], l_biasGradient = Fin 0,
              l_batchError = Fin 0, l_sum = Fin 1, l_k = 2, l_j = 0,
              l_averageError = Fin 0\<rparr>],
        crashed = None\<rparr>"
  by (simp add: start_def partition_data_def assign_inner assign_last newWorker_def
      newModel_def step_def trainWorker_step.simps slice_def zero_f64_def Let_def
      enumerate_eq_zip upt_rec numeral_2_eq_2)


text \<open>
  Claim C3, as the code has it. In every reachable state at most one worker is between
  \<open>mu.Lock()\<close> and \<open>mu.Unlock()\<close>; a step that changes the weights, the bias or the
  update counter is a step of the worker that is there, with \<open>mu\<close> locked; and while a
  worker is there, no step of another worker changes the weights, the bias, the update
  counter or that worker's local variables. So the writes of two gradient applications
  never interleave, and an application never works on an update that another one has
  half written.
\<close>

theorem update_mutual_exclusion:
  assumes "reachable cfg trainData featureCount s"
  shows "(\<forall>n < length (workers s). \<forall>n' < length (workers s).
            in_update (workers s ! n) \<and> in_update (workers s ! n') \<longrightarrow> n = n')
    \<and> (\<forall>n s'. step cfg n s = Some s'
           \<and> (Weights (model s') \<noteq> Weights (model s) \<or> Bias (model s') \<noteq> Bias (model s)
                \<or> Updates (model s') \<noteq> Updates (model s))
          \<longrightarrow> in_update (workers s ! n) \<and> mu (model s))
    \<and> (\<forall>n n' s'. n < length (workers s) \<and> in_update (workers s ! n) \<and> n' \<noteq> n
           \<and> step cfg n' s = Some s'
          \<longrightarrow> Weights (model s') = Weights (model s) \<and> Bias (model s') = Bias (model s)
              \<and> Updates (model s') = Updates (model s) \<and> workers s' ! n = workers s ! n)"
proof -
  note inv = reachable_inv [OF assms]
  have uni: "\<forall>n < length (workers s). \<forall>n' < length (workers s).
            in_update (workers s ! n) \<and> in_update (workers s ! n') \<longrightarrow> n = n'"
    using inv by (simp add: state_inv_def)
  have held: "mu (model s)" if "n < length (workers s)" "in_update (workers s ! n)" for n
    using inv that unfolding state_inv_def by blast
  have wr: "in_update (workers s ! n) \<and> mu (model s)"
    if "step cfg n s = Some s'"
      "Weights (model s') \<noteq> Weights (model s) \<or> Bias (model s') \<noteq> Bias (model s)
                \<or> Updates (model s') \<noteq> Updates (model s)" for n s'
  proof -
    have "in_update (workers s ! n)" using step_model_effect [OF that(1)] that(2) by blast
    moreover have "n < length (workers s)" using step_SomeD [OF that(1)] by simp
    ultimately show ?thesis using held by blast
  qed
  have other: "Weights (model s') = Weights (model s) \<and> Bias (model s') = Bias (model s)
              \<and> Updates (model s') = Updates (model s) \<and> workers s' ! n = workers s ! n"
    if "n < length (workers s)" "in_update (workers s ! n)" "n' \<noteq> n" "step cfg n' s = Some s'"
    for n n' s'
  proof -
    have n': "n' < length (workers s)" using step_SomeD [OF that(4)] by simp
    have "\<not> in_update (workers s ! n')" using uni that(1,2,3) n' by blast
    then have "Weights (model s') = Weights (model s) \<and> Bias (model s') = Bias (model s)
              \<and> Updates (model s') = Updates (model s)"
      using step_model_effect [OF that(4)] by blast
    moreover have "workers s' ! n = workers s ! n"
      using step_model_effect [OF that(4)] that(3) by simp
    ultimately show ?thesis by simp
  qed
  show ?thesis using uni wr other by blast
qed

text \<open>
  Claim C9. In every reachable state the weight vector has the length it was built
  with, and every step of the program keeps that length and leaves the update counter
  where it was, except the increment inside the critical section of a gradient
  application, which adds exactly one: the counter never decreases.
\<close>

theorem model_invariants:
  assumes "reachable cfg trainData featureCount s" and "step cfg n s = Some s'"
  shows "length (Weights (model s)) = featureCount
     \<and> length (Weights (model s')) = featureCount
     \<and> Updates (model s) \<le> Updates (model s')
     \<and> Updates (model s')
         = Updates (model s) + (if pc (workers s ! n) = AtUpdates then 1 else 0)"
proof -
  have "length (Weights (model s)) = featureCount"
    using reachable_inv [OF assms(1)] by (simp add: state_inv_def)
  then show ?thesis using step_model_effect [OF assms(2)] by simp
qed


theorem update_mutual_exclusion_witness:
  "(case start \<lparr>numWorkers = 2, batchSize = 1, epochs = 1, learningRate = Fin 1\<rparr>
        [\<lparr>Features = [Fin 1, Fin 1], Label = Fin 1\<rparr>,
         \<lparr>Features = [Fin 1, Fin 1], Label = Fin 1\<rparr>] 2 of
      Inl e \<Rightarrow> False
    | Inr s0 \<Rightarrow>
        reachable \<lparr>numWorkers = 2, batchSize = 1, epochs = 1, learningRate = Fin 1\<rparr>
          [\<lparr>Features = [Fin 1, Fin 1], Label = Fin 1\<rparr>,
         \<lparr>Features = [Fin 1, Fin 1], Label = Fin 1\<rparr>] 2
          (run \<lparr>numWorkers = 2, batchSize = 1, epochs = 1, learningRate = Fin 1\<rparr> (replicate 9 0 @ replicate 4 1) s0)
        \<and> 0 < length (workers (run \<lparr>numWorkers = 2, batchSize = 1, epochs = 1, learningRate = Fin 1\<rparr> (replicate 9 0 @ replicate 4 1) s0))
        \<and> in_update (workers (run \<lparr>numWorkers = 2, batchSize = 1, epochs = 1, learningRate = Fin 1\<rparr> (replicate 9 0 @ replicate 4 1) s0) ! 0)
        \<and> (1::nat) \<noteq> 0
        \<and> (case step \<lparr>numWorkers = 2, batchSize = 1, epochs = 1, learningRate = Fin 1\<rparr> 1 (run \<lparr>numWorkers = 2, batchSize = 1, epochs = 1, learningRate = Fin 1\<rparr> (replicate 9 0 @ replicate 4 1) s0) of
             None \<Rightarrow> False
           | Some s' \<Rightarrow>
               Weights (model s') = Weights (model (run \<lparr>numWorkers = 2, batchSize = 1, epochs = 1, learningRate = Fin 1\<rparr> (replicate 9 0 @ replicate 4 1) s0))
               \<and> Bias (model s') = Bias (model (run \<lparr>numWorkers = 2, batchSize = 1, epochs = 1, learningRate = Fin 1\<rparr> (replicate 9 0 @ replicate 4 1) s0))
               \<and> Updates (model s')
                   = Updates (model (run \<lparr>numWorkers = 2, batchSize = 1, epochs = 1, learningRate = Fin 1\<rparr> (replicate 9 0 @ replicate 4 1) s0))
               \<and> workers s' ! 0 = workers (run \<lparr>numWorkers = 2, batchSize = 1, epochs = 1, learningRate = Fin 1\<rparr> (replicate 9 0 @ replicate 4 1) s0) ! 0))"
proof -
  let ?cfg = "\<lparr>numWorkers = 2, batchSize = 1, epochs = 1, learningRate = Fin 1\<rparr>"
  let ?td = "[\<lparr>Features = [Fin 1, Fin 1], Label = Fin 1\<rparr>,
         \<lparr>Features = [Fin 1, Fin 1], Label = Fin 1\<rparr>]"
  have "\<not> isl (start ?cfg ?td 2)" by (simp add: start_isl)
  then obtain s0 where s0: "start ?cfg ?td 2 = Inr s0" by (cases "start ?cfg ?td 2") auto
  let ?s = "run ?cfg (replicate 9 0 @ replicate 4 1) s0"
  have r: "reachable ?cfg ?td 2 ?s"
    using s0 by (intro reachable_run reachable.reach_start)
  have "case start ?cfg ?td 2 of Inl e \<Rightarrow> False
    | Inr s0 \<Rightarrow> 0 < length (workers (run ?cfg (replicate 9 0 @ replicate 4 1) s0))
        \<and> in_update (workers (run ?cfg (replicate 9 0 @ replicate 4 1) s0) ! 0)
        \<and> step ?cfg 1 (run ?cfg (replicate 9 0 @ replicate 4 1) s0) \<noteq> None"
    by code_simp
  then have h: "0 < length (workers ?s)" "in_update (workers ?s ! 0)" "step ?cfg 1 ?s \<noteq> None"
    using s0 by simp_all
  then obtain s' where s': "step ?cfg 1 ?s = Some s'" by auto
  have "Weights (model s') = Weights (model ?s) \<and> Bias (model s') = Bias (model ?s)
      \<and> Updates (model s') = Updates (model ?s) \<and> workers s' ! 0 = workers ?s ! 0"
    using update_mutual_exclusion [OF r] h(1,2) s' by blast
  then show ?thesis using s0 r h s' by simp
qed

theorem model_invariants_witness:
  "(case start \<lparr>numWorkers = 2, batchSize = 1, epochs = 1, learningRate = Fin 1\<rparr>
        [\<lparr>Features = [Fin 1, Fin 1], Label = Fin 1\<rparr>,
         \<lparr>Features = [Fin 1, Fin 1], Label = Fin 1\<rparr>] 2 of
      Inl e \<Rightarrow> False
    | Inr s0 \<Rightarrow>
        reachable \<lparr>numWorkers = 2, batchSize = 1, epochs = 1, learningRate = Fin 1\<rparr>
          [\<lparr>Features = [Fin 1, Fin 1], Label = Fin 1\<rparr>,
         \<lparr>Features = [Fin 1, Fin 1], Label = Fin 1\<rparr>] 2
          (run \<lparr>numWorkers = 2, batchSize = 1, epochs = 1, learningRate = Fin 1\<rparr> (replicate 11 0) s0)
        \<and> pc (workers (run \<lparr>numWorkers = 2, batchSize = 1, epochs = 1, learningRate = Fin 1\<rparr> (replicate 11 0) s0) ! 0) = AtUpdates
        \<and> Updates (model (run \<lparr>numWorkers = 2, batchSize = 1, epochs = 1, learningRate = Fin 1\<rparr> (replicate 11 0) s0)) = 0
        \<and> (case step \<lparr>numWorkers = 2, batchSize = 1, epochs = 1, learningRate = Fin 1\<rparr> 0 (run \<lparr>numWorkers = 2, batchSize = 1, epochs = 1, learningRate = Fin 1\<rparr> (replicate 11 0) s0) of
             None \<Rightarrow> False
           | Some s' \<Rightarrow> Updates (model s') = 1 \<and> length (Weights (model s')) = 2))"
proof -
  let ?cfg = "\<lparr>numWorkers = 2, batchSize = 1, epochs = 1, learningRate = Fin 1\<rparr>"
  let ?td = "[\<lparr>Features = [Fin 1, Fin 1], Label = Fin 1\<rparr>,
         \<lparr>Features = [Fin 1, Fin 1], Label = Fin 1\<rparr>]"
  have "\<not> isl (start ?cfg ?td 2)" by (simp add: start_isl)
  then obtain s0 where s0: "start ?cfg ?td 2 = Inr s0" by (cases "start ?cfg ?td 2") auto
  let ?s = "run ?cfg (replicate 11 0) s0"
  have r: "reachable ?cfg ?td 2 ?s"
    using s0 by (intro reachable_run reachable.reach_start)
  have "case start ?cfg ?td 2 of Inl e \<Rightarrow> False
    | Inr s0 \<Rightarrow> pc (workers (run ?cfg (replicate 11 0) s0) ! 0) = AtUpdates
        \<and> Updates (model (run ?cfg (replicate 11 0) s0)) = 0
        \<and> step ?cfg 0 (run ?cfg (replicate 11 0) s0) \<noteq> None"
    by code_simp
  then have h: "pc (workers ?s ! 0) = AtUpdates" "Updates (model ?s) = 0" "step ?cfg 0 ?s \<noteq> None"
    using s0 by simp_all
  then obtain s' where s': "step ?cfg 0 ?s = Some s'" by auto
  have "Updates (model s') = 1 \<and> length (Weights (model s')) = 2"
    using model_invariants [OF r s'] h by simp
  then show ?thesis using s0 r h s' by simp
qed






section \<open>Finite values\<close>

lemma finite64_plus [simp]: "finite64 (a + b) \<longleftrightarrow> finite64 a \<and> finite64 b"
  by (cases a; cases b) simp_all

lemma finite64_minus [simp]: "finite64 (a - b) \<longleftrightarrow> finite64 a \<and> finite64 b"
  by (cases a; cases b) simp_all

lemma finite64_times [simp]: "finite64 (a * b) \<longleftrightarrow> finite64 a \<and> finite64 b"
  by (cases a; cases b) simp_all

lemma finite64_fdivn [simp]: "finite64 (fdivn a n) \<longleftrightarrow> finite64 a \<and> n \<noteq> 0"
  by (cases a) simp_all

lemma finite64_zero [simp]: "finite64 0"
  by (simp add: zero_f64_def)


























section \<open>Divisions\<close>




section \<open>The prediction and the gradient of a batch\<close>

lemma sum_list_upt_head:
  "k < n \<Longrightarrow> (\<Sum>i\<leftarrow>[k..<n]. f i) = f k + (\<Sum>i\<leftarrow>[Suc k..<n]. f i)"
  for f :: "nat \<Rightarrow> f64"
  by (simp add: upt_conv_Cons)

lemma predict_loop_closed:
  "i + length ws \<le> length fs \<Longrightarrow>
   predict_loop ws fs i s = Inr (s + (\<Sum>k\<leftarrow>[0..<length ws]. ws ! k * fs ! (i + k)))"
proof (induction ws arbitrary: i s)
  case Nil
  then show ?case by simp
next
  case (Cons w ws)
  have i: "i < length fs" and r: "(i + 1) + length ws \<le> length fs"
    using Cons.prems by simp_all
  have "(\<Sum>k\<leftarrow>[0..<length (w # ws)]. (w # ws) ! k * fs ! (i + k))
      = w * fs ! i + (\<Sum>k\<leftarrow>[0..<length ws]. ws ! k * fs ! (i + 1 + k))"
    by (simp add: upt_conv_Cons map_Suc_upt [symmetric] comp_def del: upt_Suc)
  then show ?case using Cons.IH [OF r, of "s + w * fs ! i"] i
    by (simp add: add.assoc)
qed

lemma predict_loop_short:
  "i \<le> length fs \<Longrightarrow> length fs < i + length ws \<Longrightarrow>
   predict_loop ws fs i s = Inl IndexOutOfRange"
  by (induction ws arbitrary: i s) auto

lemma predict_closed:
  "length (Weights m) \<le> length fs \<Longrightarrow>
   predict m fs = Inr (Bias m + (\<Sum>k\<leftarrow>[0..<length (Weights m)]. Weights m ! k * fs ! k))"
  using predict_loop_closed [of 0 "Weights m" fs "Bias m"] by (simp add: predict_def)

lemma predict_short:
  "length fs < length (Weights m) \<Longrightarrow> predict m fs = Inl IndexOutOfRange"
  by (simp add: predict_def predict_loop_short)




lemma run_solo:
  assumes "solo (epochs cfg) (learningRate cfg) k (model s) (workers s ! n) = Step m' w'"
    and "crashed s = None" and "n < length (workers s)"
  shows "run cfg (replicate k n) s = s\<lparr>model := m', workers := (workers s)[n := w']\<rparr>"
  using assms
proof (induction k arbitrary: s)
  case 0
  then have "m' = model s" "w' = workers s ! n" by simp_all
  then show ?case by simp
next
  case (Suc k)
  let ?w = "workers s ! n"
  obtain m1 w1 where t: "trainWorker_step (epochs cfg) (learningRate cfg) (model s) ?w = Step m1 w1"
    and rest: "solo (epochs cfg) (learningRate cfg) k m1 w1 = Step m' w'"
    using Suc.prems(1) by (auto split: outcome.splits)
  let ?s1 = "s\<lparr>model := m1, workers := (workers s)[n := w1]\<rparr>"
  have st: "step cfg n s = Some ?s1"
    using t Suc.prems(2,3) by (simp add: step_def)
  have "run cfg (replicate k n) ?s1 = ?s1\<lparr>model := m', workers := (workers ?s1)[n := w']\<rparr>"
    using rest Suc.prems(2,3) by (intro Suc.IH) simp_all
  then show ?case using st by simp
qed

lemma solo_predict_loop:
  assumes "pc w = AtPredict" "l_rest w = dp # rest"
    and "l_k w + d = length (Weights m)" "length (Weights m) \<le> length (Features dp)"
  shows "solo ep lr d m w =
     Step m (w\<lparr>l_sum := l_sum w
                  + (\<Sum>i\<leftarrow>[l_k w..<length (Weights m)]. Weights m ! i * Features dp ! i),
               l_k := length (Weights m)\<rparr>)"
  using assms
proof (induction d arbitrary: w)
  case 0
  then show ?case by simp
next
  case (Suc d)
  let ?w1 = "w\<lparr>l_sum := l_sum w + Weights m ! l_k w * Features dp ! l_k w, l_k := l_k w + 1\<rparr>"
  have lt: "l_k w < length (Weights m)" using Suc.prems(3) by simp
  have t: "trainWorker_step ep lr m w = Step m ?w1"
    using lt Suc.prems by (simp add: tw_AtPredict [OF Suc.prems(1,2)])
  have ih: "solo ep lr d m ?w1 =
     Step m (?w1\<lparr>l_sum := l_sum ?w1
                  + (\<Sum>i\<leftarrow>[l_k ?w1..<length (Weights m)]. Weights m ! i * Features dp ! i),
               l_k := length (Weights m)\<rparr>)"
    using Suc.prems by (intro Suc.IH) simp_all
  show ?case
    using t ih lt by (simp add: sum_list_upt_head [OF lt] add.assoc)
qed

lemma solo_predict:
  assumes "pc w = AtPoint" "l_rest w = dp # rest"
    and "length (Weights m) \<le> length (Features dp)"
  shows "solo ep lr (length (Weights m) + 1) m w =
     Step m (w\<lparr>pc := AtPredict,
               l_sum := Bias m + (\<Sum>i\<leftarrow>[0..<length (Weights m)]. Weights m ! i * Features dp ! i),
               l_k := length (Weights m)\<rparr>)"
proof -
  let ?w1 = "w\<lparr>pc := AtPredict, l_sum := Bias m, l_k := 0\<rparr>"
  have t: "trainWorker_step ep lr m w = Step m ?w1"
    using assms by (simp add: tw_AtPoint)
  have "solo ep lr (length (Weights m)) m ?w1 =
     Step m (?w1\<lparr>l_sum := l_sum ?w1
                  + (\<Sum>i\<leftarrow>[l_k ?w1..<length (Weights m)]. Weights m ! i * Features dp ! i),
               l_k := length (Weights m)\<rparr>)"
    using assms by (intro solo_predict_loop) simp_all
  then show ?thesis using t by simp
qed

lemma predict_step_pure:
  assumes st: "step cfg n s = Some s'"
    and at: "pc (workers s ! n) = AtPoint \<and> l_rest (workers s ! n) \<noteq> []
       \<or> pc (workers s ! n) = AtPredict \<and> l_k (workers s ! n) < length (Weights (model s))"
  shows "model s' = model s \<and> (\<forall>k. k \<noteq> n \<longrightarrow> workers s' ! k = workers s ! k)
    \<and> workers s' ! n = (workers s ! n)\<lparr>pc := AtPredict, l_sum := l_sum (workers s' ! n),
                                        l_k := l_k (workers s' ! n)\<rparr>"
proof -
  let ?w = "workers s ! n"
  have n: "n < length (workers s)" using step_SomeD [OF st] by simp
  from step_SomeD [OF st] consider
    (move) m' w' where "trainWorker_step (epochs cfg) (learningRate cfg) (model s) ?w = Step m' w'"
       "s' = s\<lparr>model := m', workers := (workers s)[n := w']\<rparr>"
    | (crash) e where "trainWorker_step (epochs cfg) (learningRate cfg) (model s) ?w = Crash e"
       "s' = s\<lparr>crashed := Some e\<rparr>"
    by blast
  then show ?thesis
  proof cases
    case move
    from at show ?thesis
    proof (elim disjE conjE)
      assume p: "pc ?w = AtPoint" and r: "l_rest ?w \<noteq> []"
      then obtain dp rest where c: "l_rest ?w = dp # rest" by (cases "l_rest ?w") auto
      have t: "trainWorker_step (epochs cfg) (learningRate cfg) (model s) ?w
          = Step (model s) (?w\<lparr>pc := AtPredict, l_sum := Bias (model s), l_k := 0\<rparr>)"
        by (simp add: tw_AtPoint [OF p] c)
      have "m' = model s" "w' = ?w\<lparr>pc := AtPredict, l_sum := Bias (model s), l_k := 0\<rparr>"
        using move(1) unfolding t outcome.inject by blast+
      then show ?thesis unfolding move(2) using n by simp
    next
      assume p: "pc ?w = AtPredict" and k: "l_k ?w < length (Weights (model s))"
      have "l_rest ?w \<noteq> []"
        using move(1) p by (auto simp: tw_AtPredict_Nil)
      then obtain dp rest where c: "l_rest ?w = dp # rest" by (cases "l_rest ?w") auto
      have f: "l_k ?w < length (Features dp)"
        using move(1) k by (simp add: tw_AtPredict [OF p c] split: if_splits)
      have t: "trainWorker_step (epochs cfg) (learningRate cfg) (model s) ?w = Step (model s)
          (?w\<lparr>l_sum := l_sum ?w + Weights (model s) ! l_k ?w * Features dp ! l_k ?w,
               l_k := l_k ?w + 1\<rparr>)"
        using k f by (simp add: tw_AtPredict [OF p c])
      have "m' = model s"
        "w' = ?w\<lparr>l_sum := l_sum ?w + Weights (model s) ! l_k ?w * Features dp ! l_k ?w,
               l_k := l_k ?w + 1\<rparr>"
        using move(1) unfolding t outcome.inject by blast+
      then show ?thesis unfolding move(2) using n p by simp
    qed
  next
    case crash
    have "pc ?w = AtPredict"
      using crash(1) at by (auto simp: tw_AtPoint split: list.splits)
    then show ?thesis unfolding crash(2) by simp
  qed
qed

lemma run_predict:
  assumes "crashed s = None" "n < length (workers s)"
    and "pc (workers s ! n) = AtPoint" "l_rest (workers s ! n) = dp # rest"
    and "length (Weights (model s)) \<le> length (Features dp)"
  shows "run cfg (replicate (length (Weights (model s)) + 1) n) s =
     s\<lparr>workers := (workers s)[n := (workers s ! n)\<lparr>pc := AtPredict,
          l_sum := Bias (model s)
             + (\<Sum>i\<leftarrow>[0..<length (Weights (model s))]. Weights (model s) ! i * Features dp ! i),
          l_k := length (Weights (model s))\<rparr>]\<rparr>"
  using run_solo [OF solo_predict [OF assms(3,4,5)] assms(1,2), of cfg] by simp

text \<open>
  Claim C7. \<open>Model.predict\<close> returns the bias plus the dot product of the weight
  vector with the features: the sum over the indices of the weights of
  \<open>Weights[i] * features[i]\<close>, for every feature vector that has an entry for each weight
  (a shorter one makes the loop panic with an index out of range). It is pure. As a
  function it yields nothing but its result; in the running program, the steps of a
  worker that make up a call (reading the bias, and reading one weight after the other)
  leave the model and every other worker as they are and change nothing of the worker
  but the \<open>sum\<close> and the index of the call, under every interleaving; and a call that
  runs without a step of another worker in between leaves the whole state as it was,
  except that the worker now holds the value of \<open>predict\<close> in \<open>sum\<close>.
\<close>

theorem predict_pure:
  "(length (Weights m) \<le> length features \<longrightarrow>
      predict m features
        = Inr (Bias m + (\<Sum>i\<leftarrow>[0..<length (Weights m)]. Weights m ! i * features ! i)))
   \<and> (length features < length (Weights m) \<longrightarrow> predict m features = Inl IndexOutOfRange)
   \<and> (crashed s = None \<and> n < length (workers s) \<and> pc (workers s ! n) = AtPoint
        \<and> l_rest (workers s ! n) = dp # rest
        \<and> length (Weights (model s)) \<le> length (Features dp) \<longrightarrow>
      (\<exists>v. predict (model s) (Features dp) = Inr v
         \<and> run cfg (replicate (length (Weights (model s)) + 1) n) s =
             s\<lparr>workers := (workers s)[n := (workers s ! n)\<lparr>pc := AtPredict, l_sum := v,
                                               l_k := length (Weights (model s))\<rparr>]\<rparr>))
   \<and> (step cfg n s = Some s'
        \<and> (pc (workers s ! n) = AtPoint \<and> l_rest (workers s ! n) \<noteq> []
           \<or> pc (workers s ! n) = AtPredict \<and> l_k (workers s ! n) < length (Weights (model s))) \<longrightarrow>
      model s' = model s \<and> (\<forall>k. k \<noteq> n \<longrightarrow> workers s' ! k = workers s ! k)
      \<and> workers s' ! n = (workers s ! n)\<lparr>pc := AtPredict, l_sum := l_sum (workers s' ! n),
                                          l_k := l_k (workers s' ! n)\<rparr>)"
proof (intro conjI impI)
  show "predict m features
        = Inr (Bias m + (\<Sum>i\<leftarrow>[0..<length (Weights m)]. Weights m ! i * features ! i))"
    if "length (Weights m) \<le> length features"
    using that by (rule predict_closed)
  show "predict m features = Inl IndexOutOfRange" if "length features < length (Weights m)"
    using that by (rule predict_short)
  show "\<exists>v. predict (model s) (Features dp) = Inr v
         \<and> run cfg (replicate (length (Weights (model s)) + 1) n) s =
             s\<lparr>workers := (workers s)[n := (workers s ! n)\<lparr>pc := AtPredict, l_sum := v,
                                               l_k := length (Weights (model s))\<rparr>]\<rparr>"
    if h: "crashed s = None \<and> n < length (workers s) \<and> pc (workers s ! n) = AtPoint
        \<and> l_rest (workers s ! n) = dp # rest
        \<and> length (Weights (model s)) \<le> length (Features dp)"
  proof (intro exI conjI)
    show "predict (model s) (Features dp)
        = Inr (Bias (model s) + (\<Sum>i\<leftarrow>[0..<length (Weights (model s))].
                 Weights (model s) ! i * Features dp ! i))"
      using h by (intro predict_closed) simp
    show "run cfg (replicate (length (Weights (model s)) + 1) n) s =
       s\<lparr>workers := (workers s)[n := (workers s ! n)\<lparr>pc := AtPredict,
          l_sum := Bias (model s) + (\<Sum>i\<leftarrow>[0..<length (Weights (model s))].
                 Weights (model s) ! i * Features dp ! i),
          l_k := length (Weights (model s))\<rparr>]\<rparr>"
      using h by (intro run_predict) simp_all
  qed
  show "model s' = model s" "\<forall>k. k \<noteq> n \<longrightarrow> workers s' ! k = workers s ! k"
    "workers s' ! n = (workers s ! n)\<lparr>pc := AtPredict, l_sum := l_sum (workers s' ! n),
                                          l_k := l_k (workers s' ! n)\<rparr>"
    if h: "step cfg n s = Some s'
        \<and> (pc (workers s ! n) = AtPoint \<and> l_rest (workers s ! n) \<noteq> []
           \<or> pc (workers s ! n) = AtPredict \<and> l_k (workers s ! n) < length (Weights (model s)))"
    using predict_step_pure [of cfg n s s'] h by blast+
qed

theorem predict_pure_witness:
  "length (Weights \<lparr>Weights = [Fin 2, Fin 3], Bias = Fin 1, mu = False, Updates = 0,
                     Metrics = Map.empty, MetricsMu = False\<rparr>) \<le> length [Fin 4, Fin 5]
   \<and> predict \<lparr>Weights = [Fin 2, Fin 3], Bias = Fin 1, mu = False, Updates = 0,
               Metrics = Map.empty, MetricsMu = False\<rparr> [Fin 4, Fin 5] = Inr (Fin 24)
   \<and> run \<lparr>numWorkers = 1, batchSize = 1, epochs = 1, learningRate = Fin 1\<rparr> [0, 0, 0]
        \<lparr>model = \<lparr>Weights = [Fin 2, Fin 3], Bias = Fin 1, mu = False, Updates = 0,
                    Metrics = Map.empty, MetricsMu = False\<rparr>,
          workers = [\<lparr>ID = 0, Data = [\<lparr>Features = [Fin 4, Fin 5], Label = Fin 1\<rparr>],
              BatchSize = 1, GradientSum = 0, pc = AtPoint, l_epoch = 0,
              l_batchErrors = [], l_i = 0,
              l_batch = [\<lparr>Features = [Fin 4, Fin 5], Label = Fin 1\<rparr>],
              l_rest = [\<lparr>Features = [Fin 4, Fin 5], Label = Fin 1\<rparr>],
              l_weightGradients = [Fin 0, Fin 0], l_biasGradient = Fin 0,
              l_batchError = Fin 0, l_sum = Fin 0, l_k = 0, l_j = 0,
              l_averageError = Fin 0\<rparr>],
          crashed = None\<rparr>
      = \<lparr>model = \<lparr>Weights = [Fin 2, Fin 3], Bias = Fin 1, mu = False, Updates = 0,
                    Metrics = Map.empty, MetricsMu = False\<rparr>,
          workers = [\<lparr>ID = 0, Data = [\<lparr>Features = [Fin 4, Fin 5], Label = Fin 1\<rparr>],
              BatchSize = 1, GradientSum = 0, pc = AtPredict, l_epoch = 0,
              l_batchErrors = [], l_i = 0,
              l_batch = [\<lparr>Features = [Fin 4, Fin 5], Label = Fin 1\<rparr>],
              l_rest = [\<lparr>Features = [Fin 4, Fin 5], Label = Fin 1\<rparr>],
              l_weightGradients = [Fin 0, Fin 0], l_biasGradient = Fin 0,
              l_batchError = Fin 0, l_sum = Fin 24, l_k = 2, l_j = 0,
              l_averageError = Fin 0\<rparr>],
          crashed = None\<rparr>
   \<and> (case step \<lparr>numWorkers = 1, batchSize = 1, epochs = 1, learningRate = Fin 1\<rparr> 0
        \<lparr>model = \<lparr>Weights = [Fin 2, Fin 3], Bias = Fin 1, mu = False, Updates = 0,
                    Metrics = Map.empty, MetricsMu = False\<rparr>,
          workers = [\<lparr>ID = 0, Data = [\<lparr>Features = [Fin 4, Fin 5], Label = Fin 1\<rparr>],
              BatchSize = 1, GradientSum = 0, pc = AtPoint, l_epoch = 0,
              l_batchErrors = [], l_i = 0,
              l_batch = [\<lparr>Features = [Fin 4, Fin 5], Label = Fin 1\<rparr>],
              l_rest = [\<lparr>Features = [Fin 4, Fin 5], Label = Fin 1\<rparr>],
              l_weightGradients = [Fin 0, Fin 0], l_biasGradient = Fin 0,
              l_batchError = Fin 0, l_sum = Fin 0, l_k = 0, l_j = 0,
              l_averageError = Fin 0\<rparr>],
          crashed = None\<rparr> of
          None \<Rightarrow> False
        | Some s' \<Rightarrow>
            model s' = \<lparr>Weights = [Fin 2, Fin 3], Bias = Fin 1, mu = False, Updates = 0,
                    Metrics = Map.empty, MetricsMu = False\<rparr>)
   \<and> length [Fin 4] < length (Weights \<lparr>Weights = [Fin 2, Fin 3], Bias = Fin 1, mu = False,
                     Updates = 0, Metrics = Map.empty, MetricsMu = False\<rparr>)
   \<and> predict \<lparr>Weights = [Fin 2, Fin 3], Bias = Fin 1, mu = False, Updates = 0,
               Metrics = Map.empty, MetricsMu = False\<rparr> [Fin 4] = Inl IndexOutOfRange"
proof -
  let ?m = "\<lparr>Weights = [Fin 2, Fin 3], Bias = Fin 1, mu = False, Updates = 0,
               Metrics = Map.empty, MetricsMu = False\<rparr>"
  let ?dp = "\<lparr>Features = [Fin 4, Fin 5], Label = Fin 1\<rparr>"
  let ?cfg = "\<lparr>numWorkers = 1, batchSize = 1, epochs = 1, learningRate = Fin 1\<rparr>"
  let ?w = "\<lparr>ID = 0, Data = [?dp],
              BatchSize = 1, GradientSum = 0, pc = AtPoint, l_epoch = 0,
              l_batchErrors = [], l_i = 0, l_batch = [?dp], l_rest = [?dp],
              l_weightGradients = [Fin 0, Fin 0], l_biasGradient = Fin 0,
              l_batchError = Fin 0, l_sum = Fin 0, l_k = 0, l_j = 0,
              l_averageError = Fin 0\<rparr>"
  let ?s = "\<lparr>model = ?m, workers = [?w], crashed = None\<rparr>"
  have v: "Bias ?m + (\<Sum>i\<leftarrow>[0..<length (Weights ?m)]. Weights ?m ! i * [Fin 4, Fin 5] ! i)
      = Fin 24"
    by (simp add: upt_rec)
  have a: "predict ?m [Fin 4, Fin 5] = Inr (Fin 24)"
    using predict_pure [of ?m "[Fin 4, Fin 5]"] v by simp
  have b: "predict ?m [Fin 4] = Inl IndexOutOfRange"
    using predict_pure [of ?m "[Fin 4]"] by simp
  have h: "crashed ?s = None \<and> 0 < length (workers ?s) \<and> pc (workers ?s ! 0) = AtPoint
        \<and> l_rest (workers ?s ! 0) = ?dp # []
        \<and> length (Weights (model ?s)) \<le> length (Features ?dp)"
    by simp
  obtain v' where c: "predict (model ?s) (Features ?dp) = Inr v'"
    "run ?cfg (replicate (length (Weights (model ?s)) + 1) 0) ?s =
       ?s\<lparr>workers := (workers ?s)[0 := (workers ?s ! 0)\<lparr>pc := AtPredict, l_sum := v',
                                               l_k := length (Weights (model ?s))\<rparr>]\<rparr>"
    using predict_pure [of ?m "[Fin 4, Fin 5]" ?s 0 ?dp "[]" ?cfg] h by blast
  have "v' = Fin 24" using c(1) a by simp
  then have "run ?cfg [0, 0, 0] ?s
     = ?s\<lparr>workers := [?w\<lparr>pc := AtPredict, l_sum := Fin 24, l_k := 2\<rparr>]\<rparr>"
    using c(2) by (simp add: numeral_3_eq_3)
  moreover have "step ?cfg 0 ?s \<noteq> None"
    by (simp add: step_def trainWorker_step.simps)
  then obtain s' where s': "step ?cfg 0 ?s = Some s'" by blast
  have "pc (workers ?s ! 0) = AtPoint \<and> l_rest (workers ?s ! 0) \<noteq> []" by simp
  then have "model s' = model ?s"
    using predict_pure [of ?m "[Fin 4, Fin 5]" ?s 0 ?dp "[]" ?cfg s'] s' by blast
  then have "case step ?cfg 0 ?s of None \<Rightarrow> False | Some s' \<Rightarrow> model s' = ?m"
    using s' by simp
  ultimately show ?thesis using a b by simp
qed











end
